theory Spec2Isabelle
  imports Main "HOL-Library.Char_ord" "HOL-Library.List_Lexorder" "HOL-Library.Product_Lexorder"
    "HOL-Library.Sublist"
begin

section \<open>Errors\<close>

text \<open>
  The Python exceptions that the modelled functions of \<open>pylal/grbsummary.py\<close> can raise.
  A function that may raise returns \<open>py_error + 'a\<close>, with \<open>Inl\<close> for the exception;
  a function that may return \<open>None\<close> returns an \<open>option\<close>.
\<close>

datatype py_error = ValueError | ZeroDivisionError | KeyError

section \<open>Segments and segment lists\<close>

text \<open>
  Modelled from the spec: the classes \<open>segment\<close> and \<open>segmentlist\<close> of \<open>glue.segments\<close>
  are imported by the source and are not part of it. A segment is a pair of numeric
  endpoints \<open>[start, end)\<close>; times are Python integers, so endpoints are \<open>int\<close>.
  The constructor orders its two arguments, \<open>abs\<close> is the length, \<open>other in self\<close> holds
  when neither bound of \<open>other\<close> lies outside \<open>self\<close>, and \<open>contract x\<close> moves the lower bound
  up and the upper bound down by \<open>x\<close>.
\<close>

type_synonym segment = "int \<times> int"

definition segment :: "int \<Rightarrow> int \<Rightarrow> segment" where
  "segment a b = (if a \<le> b then (a, b) else (b, a))"

definition seg_abs :: "segment \<Rightarrow> int" where
  "seg_abs s = snd s - fst s"

definition seg_contains :: "segment \<Rightarrow> segment \<Rightarrow> bool" where
  "seg_contains self other = (fst self \<le> fst other \<and> snd self \<ge> snd other)"

definition contract :: "segment \<Rightarrow> int \<Rightarrow> segment" where
  "contract s x = segment (fst s + x) (snd s - x)"

text \<open>
  Modelled from the spec: \<open>segmentlist.find(item)\<close> is the smallest index of an element
  that wholly contains \<open>item\<close>; it raises \<open>ValueError\<close> when there is none.
\<close>

fun seglist_find :: "segment list \<Rightarrow> segment \<Rightarrow> py_error + nat" where
  "seglist_find [] item = Inl ValueError"
| "seglist_find (seg # rest) item =
     (if seg_contains seg item then Inr 0
      else (case seglist_find rest item of Inl e \<Rightarrow> Inl e | Inr i \<Rightarrow> Inr (Suc i)))"

section \<open>Off-source segment computation\<close>

text \<open>
  \<open>compute_offsource_segment\<close>, lines 117-118: the numbers of whole on-source lengths
  that fit to the right (\<open>nplus\<close>) and to the left (\<open>nminus\<close>) of the on-source segment
  inside \<open>super_seg\<close>. Python's \<open>//\<close> on integers is floor division, as \<open>div\<close> on \<open>int\<close>;
  the caller handles a zero divisor.
\<close>

definition natural_trials :: "segment \<Rightarrow> segment \<Rightarrow> int \<times> int" where
  "natural_trials super_seg on_source =
     (let quantization_time = seg_abs on_source
      in ((snd super_seg - snd on_source) div quantization_time,
          (fst on_source - fst super_seg) div quantization_time))"

text \<open>
  Lines 120-132: the truncation to \<open>max_trials\<close>. The pair is \<open>(nplus, nminus)\<close>.
\<close>

definition cap_trials :: "int option \<Rightarrow> int \<times> int \<Rightarrow> int \<times> int" where
  "cap_trials max_trials n =
     (case max_trials of
        None \<Rightarrow> n
      | Some mx \<Rightarrow>
          (let nplus = fst n; nminus = snd n in
           if nplus + nminus > mx then
             (let half_max = mx div 2 in
              if nplus < half_max then (nplus, min (mx - nplus) nminus)
              else if nminus < half_max then (min (mx - nminus) nplus, nminus)
              else (half_max, half_max))
           else n))"

text \<open>Lines 134-135: the symmetric cut.\<close>

definition symmetrize :: "bool \<Rightarrow> int \<times> int \<Rightarrow> int \<times> int" where
  "symmetrize symmetric n =
     (if symmetric then (min (fst n) (snd n), min (fst n) (snd n)) else n)"

definition final_trials :: "segment \<Rightarrow> segment \<Rightarrow> int option \<Rightarrow> bool \<Rightarrow> int \<times> int" where
  "final_trials super_seg on_source max_trials symmetric =
     symmetrize symmetric (cap_trials max_trials (natural_trials super_seg on_source))"

text \<open>
  \<open>compute_offsource_segment(analyzable, on_source, padding_time=0, min_trials=None,
  max_trials=None, symmetric=True)\<close>. \<open>Inr None\<close> is the return value \<open>None\<close>. The
  \<open>ValueError\<close> of \<open>find\<close> is caught (lines 108-111); the floor division of line 117
  raises \<open>ZeroDivisionError\<close> when the on-source segment has length zero, and nothing
  catches it.
\<close>

definition compute_offsource_segment ::
  "segment list \<Rightarrow> segment \<Rightarrow> int \<Rightarrow> int option \<Rightarrow> int option \<Rightarrow> bool
     \<Rightarrow> py_error + segment option" where
  "compute_offsource_segment analyzable on_source padding_time min_trials max_trials symmetric =
     (let quantization_time = seg_abs on_source in
      case seglist_find analyzable on_source of
        Inl e \<Rightarrow> Inr None
      | Inr i \<Rightarrow>
          (let super_seg = contract (analyzable ! i) padding_time in
           if \<not> seg_contains super_seg on_source then Inr None
           else if quantization_time = 0 then Inl ZeroDivisionError
           else
             (let n = final_trials super_seg on_source max_trials symmetric;
                  nplus = fst n; nminus = snd n
              in if (case min_trials of None \<Rightarrow> False | Some mn \<Rightarrow> nplus + nminus < mn)
                 then Inr None
                 else Inr (Some (segment
                        (fst on_source - nminus * quantization_time - padding_time)
                        (snd on_source + nplus * quantization_time + padding_time))))))"

section \<open>Ranking of the detectors\<close>

type_synonym ifo = string

text \<open>Line 42: the fixed sensitivity table.\<close>

definition sensitivity_dict :: "ifo \<Rightarrow> int option" where
  "sensitivity_dict =
     map_of [(''H1'', 1), (''L1'', 2), (''H2'', 3), (''V1'', 4), (''G1'', 5)]"

text \<open>Python's built-in \<open>cmp\<close> on integers.\<close>

definition py_cmp :: "int \<Rightarrow> int \<Rightarrow> int" where
  "py_cmp a b = (if a < b then - 1 else if a = b then 0 else 1)"

text \<open>
  \<open>sensitivity_cmp\<close>, lines 43-48. Indexing the table with a detector that it does not
  list raises \<open>KeyError\<close>.
\<close>

definition sensitivity_cmp :: "ifo \<Rightarrow> ifo \<Rightarrow> py_error + int" where
  "sensitivity_cmp ifo1 ifo2 =
     (case sensitivity_dict ifo1 of
        None \<Rightarrow> Inl KeyError
      | Some a \<Rightarrow>
          (case sensitivity_dict ifo2 of
             None \<Rightarrow> Inl KeyError
           | Some b \<Rightarrow> Inr (py_cmp a b)))"

text \<open>The rank of a detector that the table lists.\<close>

definition rank :: "ifo \<Rightarrow> int" where
  "rank x = (case sensitivity_dict x of None \<Rightarrow> 0 | Some r \<Rightarrow> r)"

text \<open>
  Python's \<open>list.sort(cmp)\<close> is a stable comparison sort; an exception of the comparison
  function leaves the sort. It is modelled as a stable insertion sort: on a list of two or
  more elements both compare every element at least once, so they raise on the same
  lists, and two stable sorts of one list agree.
\<close>

fun insert_cmp :: "('a \<Rightarrow> 'a \<Rightarrow> py_error + int) \<Rightarrow> 'a \<Rightarrow> 'a list \<Rightarrow> py_error + 'a list" where
  "insert_cmp cmp x [] = Inr [x]"
| "insert_cmp cmp x (y # ys) =
     (case cmp x y of
        Inl e \<Rightarrow> Inl e
      | Inr c \<Rightarrow>
          if c \<le> 0 then Inr (x # y # ys)
          else (case insert_cmp cmp x ys of Inl e \<Rightarrow> Inl e | Inr zs \<Rightarrow> Inr (y # zs)))"

fun sort_cmp :: "('a \<Rightarrow> 'a \<Rightarrow> py_error + int) \<Rightarrow> 'a list \<Rightarrow> py_error + 'a list" where
  "sort_cmp cmp [] = Inr []"
| "sort_cmp cmp (x # xs) =
     (case sort_cmp cmp xs of Inl e \<Rightarrow> Inl e | Inr ys \<Rightarrow> insert_cmp cmp x ys)"

section \<open>Segment-list dictionaries and combinations\<close>

text \<open>
  Modelled from the spec: \<open>glue.segments.segmentlistdict\<close> maps a detector to its segment
  list. It is an association list with \<open>d[k] = v\<close> as \<open>dict_set\<close> and \<open>d[k]\<close> as \<open>dict_get\<close>;
  the order of the list stands for the iteration order of the dictionary.
\<close>

type_synonym segmentlistdict = "(ifo \<times> segment list) list"

fun dict_set :: "'k \<Rightarrow> 'v \<Rightarrow> ('k \<times> 'v) list \<Rightarrow> ('k \<times> 'v) list" where
  "dict_set k v [] = [(k, v)]"
| "dict_set k v (p # d) = (if fst p = k then (k, v) # d else p # dict_set k v d)"

definition dict_get :: "('k \<times> 'v) list \<Rightarrow> 'k \<Rightarrow> py_error + 'v" where
  "dict_get d k = (case map_of d k of None \<Rightarrow> Inl KeyError | Some v \<Rightarrow> Inr v)"

text \<open>
  Modelled from the spec: the intersection \<open>&\<close> of two coalesced segment lists holds the
  common parts of positive length, in order.
\<close>

definition seglist_and :: "segment list \<Rightarrow> segment list \<Rightarrow> segment list" where
  "seglist_and xs ys =
     concat (map (\<lambda>x. concat (map (\<lambda>y.
        if max (fst x) (fst y) < min (snd x) (snd y)
        then [(max (fst x) (fst y), min (snd x) (snd y))] else []) ys)) xs)"

text \<open>
  Modelled from the spec: \<open>segmentlistdict.intersection(keys)\<close> intersects the segment
  lists of the given keys; no key gives the empty list.
\<close>

fun intersect_keys :: "segmentlistdict \<Rightarrow> segment list \<Rightarrow> ifo list \<Rightarrow> py_error + segment list" where
  "intersect_keys d acc [] = Inr acc"
| "intersect_keys d acc (key # keys) =
     (case dict_get d key of
        Inl e \<Rightarrow> Inl e
      | Inr seglist \<Rightarrow> intersect_keys d (seglist_and acc seglist) keys)"

definition dict_intersection :: "segmentlistdict \<Rightarrow> ifo list \<Rightarrow> py_error + segment list" where
  "dict_intersection d keys =
     (case remdups keys of
        [] \<Rightarrow> Inr []
      | k # ks \<Rightarrow> (case dict_get d k of Inl e \<Rightarrow> Inl e | Inr seglist \<Rightarrow> intersect_keys d seglist ks))"

text \<open>
  Modelled from the spec: \<open>glue.iterutils.choices(vals, n)\<close> yields all choices of \<open>n\<close>
  elements of \<open>vals\<close>, each in the order of \<open>vals\<close>, the choices with an earlier first
  element first.
\<close>

fun choices :: "'a list \<Rightarrow> nat \<Rightarrow> 'a list list" where
  "choices xs 0 = [[]]"
| "choices [] (Suc n) = []"
| "choices (x # xs) (Suc n) = map ((#) x) (choices xs n) @ choices xs (Suc n)"

section \<open>Multi-detector off-source computation\<close>

text \<open>The keyword arguments handed on to \<open>compute_offsource_segment\<close>.\<close>

record offsource_kwargs =
  kw_padding_time :: int
  kw_min_trials :: "int option"
  kw_max_trials :: "int option"
  kw_symmetric :: bool

text \<open>
  Lines 150-156: the loop that keeps, for every detector whose list has a segment
  containing the on-source segment, the list of that one segment.
\<close>

fun sieve :: "segmentlistdict \<Rightarrow> segment \<Rightarrow> segmentlistdict \<Rightarrow> segmentlistdict" where
  "sieve [] on_source new_analyzable_dict = new_analyzable_dict"
| "sieve (item # rest) on_source new_analyzable_dict =
     (case seglist_find (snd item) on_source of
        Inl e \<Rightarrow> sieve rest on_source new_analyzable_dict
      | Inr ind \<Rightarrow>
          sieve rest on_source (dict_set (fst item) [snd item ! ind] new_analyzable_dict))"

text \<open>Lines 162-164: the sizes \<open>len, len - 1, ..., 2\<close>, and for each size its choices.\<close>

definition test_combos :: "ifo list \<Rightarrow> ifo list list" where
  "test_combos analyzable_ifos =
     concat (map (choices analyzable_ifos) (rev [2..<Suc (length analyzable_ifos)]))"

text \<open>Lines 169-171: the attempt for one combination.\<close>

definition attempt :: "segmentlistdict \<Rightarrow> segment \<Rightarrow> offsource_kwargs \<Rightarrow> ifo list
    \<Rightarrow> py_error + segment option" where
  "attempt new_analyzable_dict on_source kw ifo_combo =
     (case dict_intersection new_analyzable_dict ifo_combo of
        Inl e \<Rightarrow> Inl e
      | Inr trial_seglist \<Rightarrow>
          compute_offsource_segment trial_seglist on_source (kw_padding_time kw)
            (kw_min_trials kw) (kw_max_trials kw) (kw_symmetric kw))"

text \<open>Lines 166-178: the loop over the combinations, left at the first success.\<close>

fun try_combos :: "segmentlistdict \<Rightarrow> segment \<Rightarrow> offsource_kwargs \<Rightarrow> ifo list list
    \<Rightarrow> py_error + (segment option \<times> ifo list)" where
  "try_combos d on_source kw [] = Inr (None, [])"
| "try_combos d on_source kw (ifo_combo # rest) =
     (case attempt d on_source kw ifo_combo of
        Inl e \<Rightarrow> Inl e
      | Inr None \<Rightarrow> try_combos d on_source kw rest
      | Inr (Some temp_segment) \<Rightarrow> Inr (Some temp_segment, sort ifo_combo))"

definition multi_ifo_compute_offsource_segment ::
  "segmentlistdict \<Rightarrow> segment \<Rightarrow> offsource_kwargs \<Rightarrow> py_error + (segment option \<times> ifo list)" where
  "multi_ifo_compute_offsource_segment analyzable_dict on_source kw =
     (let new_analyzable_dict = sieve analyzable_dict on_source [] in
      case sort_cmp sensitivity_cmp (map fst new_analyzable_dict) of
        Inl e \<Rightarrow> Inl e
      | Inr analyzable_ifos \<Rightarrow>
          try_combos new_analyzable_dict on_source kw (test_combos analyzable_ifos))"

section \<open>Veto masks for on-source and off-source\<close>

text \<open>
  Modelled from the spec: the operations of \<open>glue.segments.segmentlist\<close> that
  \<open>compute_masked_segments\<close> uses. \<open>coalesce\<close> sorts the list and merges segments that
  overlap or touch, dropping what has length zero; \<open>-\<close> removes from every segment of the
  left list what the right list covers; \<open>|\<close> is the coalesced union.
\<close>

fun merge_sorted :: "segment list \<Rightarrow> segment list" where
  "merge_sorted [] = []"
| "merge_sorted [s] = (if fst s = snd s then [] else [s])"
| "merge_sorted (s # t # rest) =
     (if snd s \<ge> fst t then merge_sorted ((fst s, max (snd s) (snd t)) # rest)
      else (if fst s = snd s then [] else [s]) @ merge_sorted (t # rest))"

definition coalesce :: "segment list \<Rightarrow> segment list" where
  "coalesce l = merge_sorted (sort l)"

definition seg_minus :: "segment \<Rightarrow> segment \<Rightarrow> segment list" where
  "seg_minus x y =
     (if fst x < min (snd x) (fst y) then [(fst x, min (snd x) (fst y))] else [])
     @ (if max (fst x) (snd y) < snd x then [(max (fst x) (snd y), snd x)] else [])"

definition seglist_sub :: "segment list \<Rightarrow> segment list \<Rightarrow> segment list" where
  "seglist_sub xs ys = fold (\<lambda>y acc. concat (map (\<lambda>x. seg_minus x y) acc)) ys xs"

definition seglist_or :: "segment list \<Rightarrow> segment list \<Rightarrow> segment list" where
  "seglist_or xs ys = coalesce (xs @ ys)"

text \<open>
  \<open>compute_masked_segments(analyzable_seglist, on_source_segment, veto_seglist=None,
  quantization_time=None)\<close>, lines 54-80. The floor division of line 76 raises
  \<open>ZeroDivisionError\<close> for a quantization time of zero.
\<close>

definition compute_masked_segments ::
  "segment list \<Rightarrow> segment \<Rightarrow> segment list option \<Rightarrow> int option
     \<Rightarrow> py_error + (segment list \<times> segment list)" where
  "compute_masked_segments analyzable_seglist on_source_segment veto_seglist quantization_time =
     (let analyzable_seglist = coalesce analyzable_seglist;
          veto_seglist = (case veto_seglist of None \<Rightarrow> [] | Some v \<Rightarrow> v);
          off_source_segs = seglist_sub analyzable_seglist [on_source_segment];
          on_source_mask = seglist_or off_source_segs veto_seglist;
          off_source_mask = seglist_or [on_source_segment] veto_seglist
      in case quantization_time of
           None \<Rightarrow> Inr (on_source_mask, off_source_mask)
         | Some q \<Rightarrow>
             if q = 0 \<and> seglist_sub off_source_segs off_source_mask \<noteq> []
             then Inl ZeroDivisionError
             else
               (let off_source_quantized =
                      map (\<lambda>s. segment (fst s) (fst s + seg_abs s div q))
                        (seglist_sub off_source_segs off_source_mask)
                in Inr (on_source_mask, seglist_sub analyzable_seglist off_source_quantized)))"

section \<open>Trial binning\<close>

text \<open>
  Modelled from the spec: \<open>abs\<close> of a segment list is the sum of the lengths of its
  segments, and \<open>extent\<close> is the segment from its smallest lower bound to its largest upper
  bound, a \<open>ValueError\<close> for the empty list.
\<close>

definition seglist_abs :: "segment list \<Rightarrow> int" where
  "seglist_abs l = sum_list (map seg_abs l)"

definition extent :: "segment list \<Rightarrow> py_error + segment" where
  "extent l =
     (case l of
        [] \<Rightarrow> Inl ValueError
      | s # rest \<Rightarrow> Inr (segment (fold min (map fst rest) (fst s)) (fold max (map snd rest) (snd s))))"

text \<open>
  Modelled from the spec: \<open>rate.LinearBins(min, max, n)\<close> and \<open>rate.bins_spanned\<close> of
  \<open>pylal.rate\<close>, which is not part of the source. The binning partitions \<open>[min, max)\<close>
  into \<open>n\<close> contiguous bins of equal width; it needs at least one bin and \<open>min < max\<close>.
  \<open>bins_spanned\<close> with a boolean \<open>dtype\<close> has one entry per bin, true when the segment list
  overlaps the bin. Bin \<open>i\<close> is \<open>[min + i * (max - min) / n, min + (i + 1) * (max - min) / n)\<close>;
  the comparison is made exactly, on the bounds multiplied by \<open>n\<close>.
\<close>

record linear_bins =
  bins_min :: int
  bins_max :: int
  bins_n :: nat

definition LinearBins :: "int \<Rightarrow> int \<Rightarrow> int \<Rightarrow> py_error + linear_bins" where
  "LinearBins lo hi n =
     (if n < 1 \<or> hi \<le> lo then Inl ValueError
      else Inr \<lparr>bins_min = lo, bins_max = hi, bins_n = nat n\<rparr>)"

definition bin_overlaps :: "linear_bins \<Rightarrow> nat \<Rightarrow> segment \<Rightarrow> bool" where
  "bin_overlaps b i s =
     (let width = bins_max b - bins_min b; n = int (bins_n b)
      in max (n * fst s) (n * bins_min b + int i * width)
           < min (n * snd s) (n * bins_min b + (int i + 1) * width))"

definition bins_spanned :: "linear_bins \<Rightarrow> segment list \<Rightarrow> bool list" where
  "bins_spanned b seglist = map (\<lambda>i. list_ex (bin_overlaps b i) seglist) [0..<bins_n b]"

text \<open>
  Lines 237-244: the loop over the veto files. Reading a veto file is a lookup \<open>fs\<close> of
  the segments that \<open>fromsegwizard\<close> finds in the file of that name; failures of the file
  system are outside the model. The warning printed to \<open>stderr\<close> does not change the
  result and is left out.
\<close>

fun veto_loop :: "(string \<Rightarrow> segment list) \<Rightarrow> linear_bins \<Rightarrow> bool list \<Rightarrow> string list
    \<Rightarrow> bool list" where
  "veto_loop fs trial_bins trial_veto_mask [] = trial_veto_mask"
| "veto_loop fs trial_bins trial_veto_mask (veto_file # rest) =
     veto_loop fs trial_bins
       (map2 (\<or>) trial_veto_mask (bins_spanned trial_bins (fs veto_file))) rest"

text \<open>\<open>get_exttrig_trials(on_segs, off_segs, veto_files)\<close>, lines 213-252.\<close>

definition get_exttrig_trials ::
  "(string \<Rightarrow> segment list) \<Rightarrow> segment list \<Rightarrow> segment list \<Rightarrow> string list
     \<Rightarrow> py_error + (linear_bins \<times> bool list \<times> nat list)" where
  "get_exttrig_trials fs on_segs off_segs veto_files =
     (let trial_len = seglist_abs on_segs in
      if trial_len = 0 then Inl ZeroDivisionError
      else if seglist_abs off_segs mod trial_len \<noteq> 0 then Inl ValueError
      else
        (case extent off_segs of
           Inl e \<Rightarrow> Inl e
         | Inr ext \<Rightarrow>
             (let num_trials = seg_abs ext div trial_len in
              case LinearBins (fst ext) (snd ext) num_trials of
                Inl e \<Rightarrow> Inl e
              | Inr trial_bins \<Rightarrow>
                  (let trial_veto_mask =
                         veto_loop fs trial_bins (replicate (nat num_trials) False) veto_files;
                       onsource_mask = bins_spanned trial_bins on_segs
                   in if length (filter id onsource_mask) \<noteq> 1 then Inl ValueError
                      else Inr (trial_bins, trial_veto_mask,
                                filter (\<lambda>i. onsource_mask ! i) [0..<length onsource_mask])))))"

section \<open>Properties of the off-source segment\<close>

subsection \<open>Auxiliary facts\<close>

lemma seglist_find_Inl:
  "(seglist_find A S = Inl e) = (e = ValueError \<and> (\<forall>s\<in>set A. \<not> seg_contains s S))"
  by (induction A) (auto split: sum.splits)

lemma seglist_find_Inr:
  "seglist_find A S = Inr i \<Longrightarrow>
     i < length A \<and> seg_contains (A ! i) S \<and> (\<forall>j<i. \<not> seg_contains (A ! j) S)"
proof (induction A arbitrary: i)
  case Nil
  then show ?case by simp
next
  case (Cons a A)
  show ?case
  proof (cases "seg_contains a S")
    case True
    with Cons.prems show ?thesis by simp
  next
    case False
    with Cons.prems obtain k where k: "seglist_find A S = Inr k" "i = Suc k"
      by (auto split: sum.splits)
    from Cons.IH[OF k(1)] False k(2) show ?thesis
      by (auto simp: less_Suc_eq_0_disj)
  qed
qed

lemma natural_trials_nonneg:
  assumes "0 < seg_abs S" "seg_contains T S"
  shows "0 \<le> fst (natural_trials T S) \<and> 0 \<le> snd (natural_trials T S)"
  using assms
  by (simp add: natural_trials_def seg_contains_def Let_def pos_imp_zdiv_nonneg_iff)

lemma cap_trials_nonneg:
  assumes "0 \<le> fst n" "0 \<le> snd n" "case mx of None \<Rightarrow> True | Some m \<Rightarrow> 0 \<le> m"
  shows "0 \<le> fst (cap_trials mx n) \<and> 0 \<le> snd (cap_trials mx n)"
  using assms by (auto simp: cap_trials_def Let_def split: option.splits)

lemma cap_trials_total: "fst (cap_trials (Some m) n) + snd (cap_trials (Some m) n) \<le> m"
  by (auto simp: cap_trials_def Let_def)

lemma symmetrize_total: "fst (symmetrize b n) + snd (symmetrize b n) \<le> fst n + snd n"
  by (auto simp: symmetrize_def)

lemma final_trials_total:
  "fst (final_trials T S (Some m) sy) + snd (final_trials T S (Some m) sy) \<le> m"
  unfolding final_trials_def
  using symmetrize_total[of sy "cap_trials (Some m) (natural_trials T S)"]
        cap_trials_total[of m "natural_trials T S"] by linarith

text \<open>
  A contraction by at most half the length of the segment leaves the bounds in order, so
  that the constructor does not exchange them.
\<close>

lemma contract_fit: "2 * p \<le> seg_abs s \<Longrightarrow> contract s p = (fst s + p, snd s - p)"
  by (simp add: contract_def segment_def seg_abs_def)

lemma floor_div_times_le: "0 < (q::int) \<Longrightarrow> a div q * q \<le> a"
proof -
  assume q: "0 < q"
  have "a = a div q * q + a mod q" by simp
  moreover have "0 \<le> a mod q" using q by simp
  ultimately show ?thesis by linarith
qed

lemma natural_trials_fit:
  assumes "0 < seg_abs S"
  shows "fst (natural_trials T S) * seg_abs S \<le> snd T - snd S"
    and "snd (natural_trials T S) * seg_abs S \<le> fst S - fst T"
  using assms by (simp_all add: natural_trials_def Let_def floor_div_times_le)

lemma cap_trials_le:
  assumes "0 \<le> fst n" "0 \<le> snd n"
  shows "fst (cap_trials mx n) \<le> fst n \<and> snd (cap_trials mx n) \<le> snd n"
  using assms by (auto simp: cap_trials_def Let_def split: option.splits)

lemma symmetrize_le: "fst (symmetrize b n) \<le> fst n \<and> snd (symmetrize b n) \<le> snd n"
  by (auto simp: symmetrize_def)

lemma final_trials_le:
  assumes q: "0 < seg_abs S" and cont: "seg_contains T S"
  shows "fst (final_trials T S mx sy) \<le> fst (natural_trials T S)
         \<and> snd (final_trials T S mx sy) \<le> snd (natural_trials T S)"
proof -
  from natural_trials_nonneg[OF q cont]
  have n0: "0 \<le> fst (natural_trials T S)" "0 \<le> snd (natural_trials T S)" by simp_all
  from cap_trials_le[OF n0, of mx] symmetrize_le[of sy "cap_trials mx (natural_trials T S)"]
  show ?thesis unfolding final_trials_def by linarith
qed

text \<open>
  The returned segment stays inside a super-segment \<open>T\<close> widened by the padding on both
  sides, whenever the final counts are those computed inside \<open>T\<close>.
\<close>

lemma final_trials_inside:
  assumes q: "0 < seg_abs S" and cont: "seg_contains T S"
  shows "fst T \<le> fst S - snd (final_trials T S mx sy) * seg_abs S"
    and "snd S + fst (final_trials T S mx sy) * seg_abs S \<le> snd T"
proof -
  from final_trials_le[OF q cont, of mx sy]
  have a: "fst (final_trials T S mx sy) \<le> fst (natural_trials T S)"
    and b: "snd (final_trials T S mx sy) \<le> snd (natural_trials T S)" by simp_all
  from q have q0: "0 \<le> seg_abs S" by simp
  have a': "fst (final_trials T S mx sy) * seg_abs S \<le> fst (natural_trials T S) * seg_abs S"
    using a q0 by (rule mult_right_mono)
  have b': "snd (final_trials T S mx sy) * seg_abs S \<le> snd (natural_trials T S) * seg_abs S"
    using b q0 by (rule mult_right_mono)
  from b' natural_trials_fit(2)[OF q, of T]
  show "fst T \<le> fst S - snd (final_trials T S mx sy) * seg_abs S" by linarith
  from a' natural_trials_fit(1)[OF q, of T]
  show "snd S + fst (final_trials T S mx sy) * seg_abs S \<le> snd T" by linarith
qed

text \<open>What a returned segment looks like: every path of the function that returns a segment.\<close>

lemma compute_Some_shape:
  assumes res: "compute_offsource_segment A S p mn mx sy = Inr (Some r)"
  shows "\<exists>i. seglist_find A S = Inr i \<and> seg_contains (contract (A ! i) p) S \<and> seg_abs S \<noteq> 0
           \<and> (let n = final_trials (contract (A ! i) p) S mx sy in
                r = segment (fst S - snd n * seg_abs S - p) (snd S + fst n * seg_abs S + p)
                \<and> (case mn of None \<Rightarrow> True | Some k \<Rightarrow> k \<le> fst n + snd n))"
proof -
  from res obtain i where i: "seglist_find A S = Inr i"
    by (auto simp: compute_offsource_segment_def Let_def split: sum.splits)
  with res show ?thesis
    by (auto simp: compute_offsource_segment_def Let_def split: if_splits option.splits)
qed

text \<open>
  With a well-formed on-source segment and non-negative padding and \<open>max_trials\<close>, the
  constructor of the returned segment does not reorder its arguments.
\<close>

lemma compute_Some_unswapped:
  assumes wf: "fst S \<le> snd S" and pad: "0 \<le> p"
    and mx: "case mx of None \<Rightarrow> True | Some m \<Rightarrow> 0 \<le> m"
    and res: "compute_offsource_segment A S p mn mx sy = Inr (Some r)"
  shows "\<exists>i. seglist_find A S = Inr i \<and> seg_contains (contract (A ! i) p) S \<and> 0 < seg_abs S
           \<and> 0 \<le> fst (final_trials (contract (A ! i) p) S mx sy)
           \<and> 0 \<le> snd (final_trials (contract (A ! i) p) S mx sy)
           \<and> r = (fst S - snd (final_trials (contract (A ! i) p) S mx sy) * seg_abs S - p,
                  snd S + fst (final_trials (contract (A ! i) p) S mx sy) * seg_abs S + p)"
proof -
  from compute_Some_shape[OF res] obtain i where i: "seglist_find A S = Inr i"
    by (auto simp: Let_def)
  define T where "T = contract (A ! i) p"
  define n where "n = final_trials T S mx sy"
  from res i have cont: "seg_contains T S" and q0: "seg_abs S \<noteq> 0"
    and r: "r = segment (fst S - snd n * seg_abs S - p) (snd S + fst n * seg_abs S + p)"
    by (auto simp: compute_offsource_segment_def Let_def T_def n_def split: if_splits)
  from wf q0 have q: "0 < seg_abs S" by (simp add: seg_abs_def)
  have cap0: "0 \<le> fst (cap_trials mx (natural_trials T S))
              \<and> 0 \<le> snd (cap_trials mx (natural_trials T S))"
    using cap_trials_nonneg[OF _ _ mx] natural_trials_nonneg[OF q cont] by blast
  have n0: "0 \<le> fst n \<and> 0 \<le> snd n"
    using cap0 by (auto simp: n_def final_trials_def symmetrize_def)
  have a: "0 \<le> snd n * seg_abs S" and b: "0 \<le> fst n * seg_abs S"
    using n0 q by simp_all
  have le: "fst S - snd n * seg_abs S - p \<le> snd S + fst n * seg_abs S + p"
    using a b pad wf by linarith
  have r': "r = (fst S - snd n * seg_abs S - p, snd S + fst n * seg_abs S + p)"
    using r le by (simp add: segment_def)
  show ?thesis
  proof (intro exI[of _ i] conjI)
    show "seglist_find A S = Inr i" by (rule i)
    show "seg_contains (contract (A ! i) p) S" using cont unfolding T_def .
    show "0 < seg_abs S" by (rule q)
    show "0 \<le> fst (final_trials (contract (A ! i) p) S mx sy)"
      using n0 unfolding n_def T_def by (rule conjunct1)
    show "0 \<le> snd (final_trials (contract (A ! i) p) S mx sy)"
      using n0 unfolding n_def T_def by (rule conjunct2)
    show "r = (fst S - snd (final_trials (contract (A ! i) p) S mx sy) * seg_abs S - p,
               snd S + fst (final_trials (contract (A ! i) p) S mx sy) * seg_abs S + p)"
      using r' unfolding n_def T_def .
  qed
qed

lemmas offsource_defs =
  compute_offsource_segment_def final_trials_def symmetrize_def cap_trials_def
  natural_trials_def contract_def segment_def seg_abs_def seg_contains_def Let_def

subsection \<open>The worked example\<close>

text \<open>
  C7. For on-source \<open>[100,200)\<close>, analyzable \<open>[[0,1000)]\<close>, no padding, no trial bounds and
  \<open>symmetric\<close> left at \<open>True\<close>: the natural counts are \<open>nplus = 8\<close> and \<open>nminus = 1\<close>, the
  symmetric cut sets both to \<open>1\<close>, and the function returns \<open>[0,300)\<close>.
\<close>

theorem example_100_200_in_0_1000:
  "natural_trials (contract (0, 1000) 0) (100, 200) = (8, 1)
   \<and> final_trials (contract (0, 1000) 0) (100, 200) None True = (1, 1)
   \<and> compute_offsource_segment [(0, 1000)] (100, 200) 0 None None True = Inr (Some (0, 300))"
  by (simp add: offsource_defs)

subsection \<open>Containment and length\<close>

text \<open>
  C1, as stated, fails: with on-source \<open>[100,200)\<close> inside the analyzable segment
  \<open>[0,1000)\<close> and \<open>padding_time = 10\<close> the function returns \<open>[90,210)\<close>, of length \<open>120\<close>,
  which is not a multiple of \<open>100\<close>, because the padding is added back on both sides.
  With a negative \<open>padding_time\<close>, or a negative \<open>max_trials\<close> together with a positive
  padding, the returned segment \<open>[110,190)\<close> does not even contain the on-source segment.
  And with a padding of more than half the analyzable segment, here \<open>200\<close> for \<open>[0,300)\<close>,
  the contraction gives the crossed bounds \<open>(200, 100)\<close>, which the constructor exchanges
  to \<open>[100,200)\<close>: the containment test is then not made against the analyzable segment
  less the padding, of which nothing is left, and the function returns \<open>[-100,400)\<close>.
\<close>

theorem offsource_length_not_multiple_counterexample:
  "compute_offsource_segment [(0, 1000)] (100, 200) 10 None None True = Inr (Some (90, 210))
   \<and> seg_contains (0, 1000) (100, 200)
   \<and> seg_abs (90, 210) mod seg_abs (100, 200) \<noteq> 0
   \<and> compute_offsource_segment [(100, 200)] (100, 200) (- 10) None None True
       = Inr (Some (110, 190))
   \<and> compute_offsource_segment [(0, 1000)] (100, 200) 10 None (Some (- 1)) True
       = Inr (Some (110, 190))
   \<and> \<not> seg_contains (110, 190) (100, 200)
   \<and> compute_offsource_segment [(0, 300)] (100, 200) 200 None None True
       = Inr (Some (- 100, 400))
   \<and> contract (0, 300) 200 = (100, 200)
   \<and> \<not> seg_contains (0 + 200, 300 - 200) (100, 200)"
  by (simp add: offsource_defs)

text \<open>
  C1, amended. Let the on-source segment \<open>S\<close> be well formed, \<open>padding_time\<close> be
  non-negative and at most half the length of the first analyzable segment \<open>[a, b)\<close> that
  contains \<open>S\<close>, and \<open>max_trials\<close>, when given, be non-negative. Whenever the function
  returns a segment \<open>r\<close>: the contraction of \<open>[a, b)\<close> is \<open>[a + padding_time,
  b - padding_time)\<close>, with the bounds in order, and \<open>S\<close> lies in it; the final side counts
  \<open>nplus\<close>, \<open>nminus\<close> are non-negative; \<open>r\<close> reaches \<open>nminus\<close> on-source lengths plus the
  padding to the left of \<open>S\<close> and \<open>nplus\<close> on-source lengths plus the padding to the right;
  \<open>r\<close> contains \<open>S\<close> and lies in \<open>[a, b)\<close>; and the length of \<open>r\<close> is
  \<open>(nplus + nminus + 1) * |S| + 2 * padding_time\<close>: the part without the padding is an
  exact multiple of \<open>|S|\<close>, the multiple minus one being the trial count. Nothing is said
  about a padding of more than half the analyzable segment.
\<close>

theorem offsource_contains_and_length:
  assumes wf: "fst S \<le> snd S" and pad: "0 \<le> p"
    and mx: "case mx of None \<Rightarrow> True | Some m \<Rightarrow> 0 \<le> m"
    and fit: "\<forall>i. seglist_find A S = Inr i \<longrightarrow> 2 * p \<le> seg_abs (A ! i)"
    and res: "compute_offsource_segment A S p mn mx sy = Inr (Some r)"
  shows "\<exists>i. seglist_find A S = Inr i \<and> i < length A \<and> seg_contains (A ! i) S
           \<and> contract (A ! i) p = (fst (A ! i) + p, snd (A ! i) - p)
           \<and> fst (A ! i) + p \<le> snd (A ! i) - p
           \<and> seg_contains (fst (A ! i) + p, snd (A ! i) - p) S
           \<and> (let n = final_trials (fst (A ! i) + p, snd (A ! i) - p) S mx sy in
                0 \<le> fst n \<and> 0 \<le> snd n
                \<and> r = (fst S - snd n * seg_abs S - p, snd S + fst n * seg_abs S + p)
                \<and> seg_abs r = (fst n + snd n + 1) * seg_abs S + 2 * p
                \<and> (seg_abs r - 2 * p) mod seg_abs S = 0)
           \<and> seg_contains r S \<and> seg_contains (A ! i) r"
proof -
  from compute_Some_unswapped[OF wf pad mx res] obtain i where i: "seglist_find A S = Inr i"
    and cont0: "seg_contains (contract (A ! i) p) S" and q: "0 < seg_abs S"
    and n10: "0 \<le> fst (final_trials (contract (A ! i) p) S mx sy)"
    and n20: "0 \<le> snd (final_trials (contract (A ! i) p) S mx sy)"
    and r00: "r = (fst S - snd (final_trials (contract (A ! i) p) S mx sy) * seg_abs S - p,
                  snd S + fst (final_trials (contract (A ! i) p) S mx sy) * seg_abs S + p)"
    by blast
  from fit i have fit': "2 * p \<le> seg_abs (A ! i)" by blast
  have ct: "contract (A ! i) p = (fst (A ! i) + p, snd (A ! i) - p)"
    using fit' by (rule contract_fit)
  have ord: "fst (A ! i) + p \<le> snd (A ! i) - p"
    using fit' by (simp add: seg_abs_def)
  have cont: "seg_contains (fst (A ! i) + p, snd (A ! i) - p) S"
    using cont0 unfolding ct .
  have n1: "0 \<le> fst (final_trials (fst (A ! i) + p, snd (A ! i) - p) S mx sy)"
    using n10 unfolding ct .
  have n2: "0 \<le> snd (final_trials (fst (A ! i) + p, snd (A ! i) - p) S mx sy)"
    using n20 unfolding ct .
  have r0: "r = (fst S - snd (final_trials (fst (A ! i) + p, snd (A ! i) - p) S mx sy)
                     * seg_abs S - p,
                 snd S + fst (final_trials (fst (A ! i) + p, snd (A ! i) - p) S mx sy)
                     * seg_abs S + p)"
    using r00 unfolding ct .
  define n where "n = final_trials (fst (A ! i) + p, snd (A ! i) - p) S mx sy"
  have r': "r = (fst S - snd n * seg_abs S - p, snd S + fst n * seg_abs S + p)"
    using r0 unfolding n_def .
  have in1: "fst (A ! i) + p \<le> fst S - snd n * seg_abs S"
    using final_trials_inside(1)[OF q cont, of mx sy] unfolding n_def by simp
  have in2: "snd S + fst n * seg_abs S \<le> snd (A ! i) - p"
    using final_trials_inside(2)[OF q cont, of mx sy] unfolding n_def by simp
  have inA: "seg_contains (A ! i) r"
    using in1 in2 by (simp add: r' seg_contains_def)
  have a: "0 \<le> snd n * seg_abs S" and b: "0 \<le> fst n * seg_abs S"
    using n1 n2 q by (simp_all add: n_def)
  have len: "seg_abs r = (fst n + snd n + 1) * seg_abs S + 2 * p"
    by (simp add: r' seg_abs_def algebra_simps)
  have "seg_abs r - 2 * p = (fst n + snd n + 1) * seg_abs S"
    using len by linarith
  then have md: "(seg_abs r - 2 * p) mod seg_abs S = 0"
    by (simp only: mod_mult_self2_is_0)
  have inS: "seg_contains r S"
    using a b pad by (simp add: r' seg_contains_def)
  from seglist_find_Inr[OF i] have il: "i < length A" and ic: "seg_contains (A ! i) S"
    by simp_all
  show ?thesis
  proof (intro exI[of _ i] conjI)
    show "seglist_find A S = Inr i" by (rule i)
    show "i < length A" by (rule il)
    show "seg_contains (A ! i) S" by (rule ic)
    show "contract (A ! i) p = (fst (A ! i) + p, snd (A ! i) - p)" by (rule ct)
    show "fst (A ! i) + p \<le> snd (A ! i) - p" by (rule ord)
    show "seg_contains (fst (A ! i) + p, snd (A ! i) - p) S" by (rule cont)
    show "let n = final_trials (fst (A ! i) + p, snd (A ! i) - p) S mx sy in
                0 \<le> fst n \<and> 0 \<le> snd n
                \<and> r = (fst S - snd n * seg_abs S - p, snd S + fst n * seg_abs S + p)
                \<and> seg_abs r = (fst n + snd n + 1) * seg_abs S + 2 * p
                \<and> (seg_abs r - 2 * p) mod seg_abs S = 0"
      unfolding Let_def n_def[symmetric]
    proof (intro conjI)
      show "0 \<le> fst n" using n1 unfolding n_def .
      show "0 \<le> snd n" using n2 unfolding n_def .
      show "r = (fst S - snd n * seg_abs S - p, snd S + fst n * seg_abs S + p)" by (rule r')
      show "seg_abs r = (fst n + snd n + 1) * seg_abs S + 2 * p" by (rule len)
      show "(seg_abs r - 2 * p) mod seg_abs S = 0" by (rule md)
    qed
    show "seg_contains r S" by (rule inS)
    show "seg_contains (A ! i) r" by (rule inA)
  qed
qed

theorem offsource_contains_and_length_witness:
  "fst ((100, 200)::segment) \<le> snd ((100, 200)::segment) \<and> (0::int) \<le> 10
   \<and> seglist_find [(0, 1000)] (100, 200) = Inr 0 \<and> 2 * 10 \<le> seg_abs ([(0, 1000)] ! 0)
   \<and> compute_offsource_segment [(0, 1000)] (100, 200) 10 None (Some 4) False
       = Inr (Some (90, 610))
   \<and> seg_contains (90, 610) (100, 200)"
proof -
  have h: "compute_offsource_segment [(0, 1000)] (100, 200) 10 None (Some 4) False
             = Inr (Some (90, 610))"
    by (simp add: offsource_defs)
  have wf: "fst ((100, 200)::segment) \<le> snd ((100, 200)::segment)" and pad: "(0::int) \<le> 10"
    and mx: "case Some (4::int) of None \<Rightarrow> True | Some m \<Rightarrow> 0 \<le> m"
    by simp_all
  have f: "seglist_find [(0, 1000)] (100, 200) = Inr 0" by (simp add: seg_contains_def)
  have g: "2 * 10 \<le> seg_abs ([(0, 1000)] ! 0)" by (simp add: seg_abs_def)
  have fit: "\<forall>i. seglist_find [(0, 1000)] (100, 200) = Inr i
               \<longrightarrow> 2 * 10 \<le> seg_abs ([(0, 1000)] ! i)"
    using f g by simp
  from offsource_contains_and_length[OF wf pad mx fit h]
  have "seg_contains (90, 610) (100, 200)" by blast
  with h wf pad f g show ?thesis by blast
qed

subsection \<open>Truncation to \<open>max_trials\<close>\<close>

text \<open>
  C2. With \<open>max_trials = m\<close> and natural counts with \<open>nplus + nminus > m\<close>, the truncation
  step (lines 120-132) behaves as follows. If \<open>nplus\<close> is below half of \<open>m\<close>, only
  \<open>nminus\<close> is cut, to \<open>m - nplus\<close>, so the total is exactly \<open>m\<close>; if \<open>nminus\<close> is below
  half of \<open>m\<close>, only \<open>nplus\<close> is cut, to \<open>m - nminus\<close>; if both are at least half of \<open>m\<close>,
  both become \<open>m div 2\<close>. Half of \<open>m\<close> is \<open>m // 2\<close>, as the code computes it. And
  whenever the function returns a segment with \<open>max_trials = m\<close>, the final counts that
  build the segment sum to at most \<open>m\<close>; for a well-formed on-source segment and
  non-negative padding and \<open>m\<close>, the trial count read off the returned segment, its
  length without the padding divided by the on-source length, minus one, is at most \<open>m\<close>.
\<close>

theorem max_trials_enforced:
  "(m < nplus + nminus \<longrightarrow>
      (nplus < m div 2 \<longrightarrow>
         cap_trials (Some m) (nplus, nminus) = (nplus, m - nplus) \<and> m - nplus < nminus)
    \<and> (nminus < m div 2 \<longrightarrow>
         cap_trials (Some m) (nplus, nminus) = (m - nminus, nminus) \<and> m - nminus < nplus)
    \<and> (m div 2 \<le> nplus \<and> m div 2 \<le> nminus \<longrightarrow>
         cap_trials (Some m) (nplus, nminus) = (m div 2, m div 2)))
   \<and> (compute_offsource_segment A S p mn (Some m) sy = Inr (Some r) \<longrightarrow>
        (\<exists>i. seglist_find A S = Inr i
           \<and> (let n = final_trials (contract (A ! i) p) S (Some m) sy in
                fst n + snd n \<le> m
                \<and> r = segment (fst S - snd n * seg_abs S - p) (snd S + fst n * seg_abs S + p))))
   \<and> (fst S \<le> snd S \<and> 0 \<le> p \<and> 0 \<le> m
        \<and> compute_offsource_segment A S p mn (Some m) sy = Inr (Some r) \<longrightarrow>
        (seg_abs r - 2 * p) div seg_abs S - 1 \<le> m)"
proof (intro conjI impI)
  assume "m < nplus + nminus" "nplus < m div 2"
  then show "cap_trials (Some m) (nplus, nminus) = (nplus, m - nplus)"
    by (auto simp: cap_trials_def Let_def)
next
  assume "m < nplus + nminus" "nplus < m div 2"
  then show "m - nplus < nminus" by linarith
next
  assume "m < nplus + nminus" "nminus < m div 2"
  then show "cap_trials (Some m) (nplus, nminus) = (m - nminus, nminus)"
    by (auto simp: cap_trials_def Let_def)
next
  assume "m < nplus + nminus" "nminus < m div 2"
  then show "m - nminus < nplus" by linarith
next
  assume "m < nplus + nminus" "m div 2 \<le> nplus \<and> m div 2 \<le> nminus"
  then show "cap_trials (Some m) (nplus, nminus) = (m div 2, m div 2)"
    by (auto simp: cap_trials_def Let_def)
next
  assume "compute_offsource_segment A S p mn (Some m) sy = Inr (Some r)"
  from compute_Some_shape[OF this] final_trials_total
  show "\<exists>i. seglist_find A S = Inr i
           \<and> (let n = final_trials (contract (A ! i) p) S (Some m) sy in
                fst n + snd n \<le> m
                \<and> r = segment (fst S - snd n * seg_abs S - p) (snd S + fst n * seg_abs S + p))"
    by (auto simp: Let_def)
next
  assume h: "fst S \<le> snd S \<and> 0 \<le> p \<and> 0 \<le> m
        \<and> compute_offsource_segment A S p mn (Some m) sy = Inr (Some r)"
  then have wf: "fst S \<le> snd S" and pad: "0 \<le> p"
    and mx: "case Some m of None \<Rightarrow> True | Some m \<Rightarrow> 0 \<le> m"
    and res: "compute_offsource_segment A S p mn (Some m) sy = Inr (Some r)"
    by simp_all
  from compute_Some_unswapped[OF wf pad mx res] obtain i where q: "0 < seg_abs S"
    and r0: "r = (fst S - snd (final_trials (contract (A ! i) p) S (Some m) sy) * seg_abs S - p,
                  snd S + fst (final_trials (contract (A ! i) p) S (Some m) sy) * seg_abs S + p)"
    by blast
  define t where "t = fst (final_trials (contract (A ! i) p) S (Some m) sy)
                      + snd (final_trials (contract (A ! i) p) S (Some m) sy)"
  have "seg_abs r - 2 * p = (t + 1) * seg_abs S"
    by (simp add: r0 seg_abs_def t_def algebra_simps)
  then have "(seg_abs r - 2 * p) div seg_abs S = t + 1"
    using q by simp
  moreover have "t \<le> m" unfolding t_def by (rule final_trials_total)
  ultimately show "(seg_abs r - 2 * p) div seg_abs S - 1 \<le> m" by linarith
qed

theorem max_trials_enforced_witness:
  "(4::int) < 7 + 0 \<and> (0::int) < 4 div 2 \<and> cap_trials (Some 4) (7, 0) = (4, 0)
   \<and> (4::int) < 8 + 8 \<and> (4::int) div 2 \<le> 8 \<and> cap_trials (Some 4) (8, 8) = (2, 2)
   \<and> compute_offsource_segment [(0, 1000)] (100, 200) 10 None (Some 4) False
       = Inr (Some (90, 610))
   \<and> final_trials (contract (0, 1000) 10) (100, 200) (Some 4) False = (4, 0)
   \<and> fst ((100, 200)::segment) \<le> snd ((100, 200)::segment) \<and> (0::int) \<le> 10 \<and> (0::int) \<le> 4
   \<and> (seg_abs (90, 610) - 2 * 10) div seg_abs (100, 200) - 1 \<le> 4"
proof -
  have h: "compute_offsource_segment [(0, 1000)] (100, 200) 10 None (Some 4) False
             = Inr (Some (90, 610))"
    by (simp add: offsource_defs)
  have w: "fst ((100, 200)::segment) \<le> snd ((100, 200)::segment) \<and> (0::int) \<le> 10 \<and> (0::int) \<le> 4"
    by simp
  from w h max_trials_enforced[where A = "[(0, 1000)]" and S = "(100, 200)" and p = 10
      and mn = None and m = 4 and sy = False and r = "(90, 610)"]
  have c4: "(seg_abs (90, 610) - 2 * 10) div seg_abs (100, 200) - 1 \<le> 4"
    by blast
  have a: "(4::int) < 7 + 0 \<and> (0::int) < 4 div 2" and b: "(4::int) < 8 + 8 \<and> (4::int) div 2 \<le> 8"
    by simp_all
  from a max_trials_enforced[where m = 4 and nplus = 7 and nminus = 0]
  have c1: "cap_trials (Some 4) (7, 0) = (4, 0)" by simp
  from b max_trials_enforced[where m = 4 and nplus = 8 and nminus = 8]
  have c2: "cap_trials (Some 4) (8, 8) = (2, 2)" by simp
  from h max_trials_enforced[where A = "[(0, 1000)]" and S = "(100, 200)" and p = 10
      and mn = None and m = 4 and sy = False and r = "(90, 610)"]
  have "\<exists>i. seglist_find [(0, 1000)] (100, 200) = Inr i
     \<and> (let n = final_trials (contract ([(0, 1000)] ! i) 10) (100, 200) (Some 4) False in
                fst n + snd n \<le> 4
                \<and> (90, 610) = segment (fst ((100, 200)::segment) - snd n * seg_abs (100, 200) - 10)
                     (snd ((100, 200)::segment) + fst n * seg_abs (100, 200) + 10))"
    by blast
  have c3: "final_trials (contract (0, 1000) 10) (100, 200) (Some 4) False = (4, 0)"
    by (simp add: offsource_defs)
  from a b c1 c2 c3 c4 h w show ?thesis by blast
qed

subsection \<open>The symmetric cut\<close>

text \<open>
  C3. Whenever the function, called with \<open>symmetric = True\<close>, returns a segment \<open>r\<close>: both
  final side counts equal the minimum \<open>k\<close> of the two side counts as they stand after the
  \<open>max_trials\<close> step (line 135 assigns over whatever that step left), \<open>r\<close> is built from
  \<open>k\<close> on both sides, and the left margin \<open>S[0] - r[0]\<close> equals the right margin
  \<open>r[1] - S[1]\<close> exactly.
\<close>

theorem symmetric_equal_margins:
  assumes res: "compute_offsource_segment A S p mn mx True = Inr (Some r)"
  shows "\<exists>i. seglist_find A S = Inr i
           \<and> (let c = cap_trials mx (natural_trials (contract (A ! i) p) S);
                   k = min (fst c) (snd c)
               in final_trials (contract (A ! i) p) S mx True = (k, k)
                  \<and> r = segment (fst S - k * seg_abs S - p) (snd S + k * seg_abs S + p))
           \<and> fst S - fst r = snd r - snd S"
proof -
  from compute_Some_shape[OF res] obtain i where i: "seglist_find A S = Inr i"
    and r: "r = segment (fst S - snd (final_trials (contract (A ! i) p) S mx True) * seg_abs S - p)
                        (snd S + fst (final_trials (contract (A ! i) p) S mx True) * seg_abs S + p)"
    by (auto simp: Let_def)
  define c where "c = cap_trials mx (natural_trials (contract (A ! i) p) S)"
  define k where "k = min (fst c) (snd c)"
  have ft: "final_trials (contract (A ! i) p) S mx True = (k, k)"
    by (simp add: final_trials_def symmetrize_def c_def k_def)
  have r': "r = segment (fst S - k * seg_abs S - p) (snd S + k * seg_abs S + p)"
    using r ft by simp
  have "fst S - fst r = snd r - snd S"
    by (simp add: r' segment_def seg_abs_def)
  with i ft r' show ?thesis
    unfolding c_def k_def Let_def by blast
qed

theorem symmetric_equal_margins_witness:
  "compute_offsource_segment [(0, 1000)] (100, 200) 10 None (Some 4) True = Inr (Some (90, 210))
   \<and> fst ((100, 200)::segment) - fst ((90, 210)::segment)
       = snd ((90, 210)::segment) - snd ((100, 200)::segment)"
proof -
  have h: "compute_offsource_segment [(0, 1000)] (100, 200) 10 None (Some 4) True
             = Inr (Some (90, 210))"
    by (simp add: offsource_defs)
  from symmetric_equal_margins[OF h]
  have "fst ((100, 200)::segment) - fst ((90, 210)::segment)
          = snd ((90, 210)::segment) - snd ((100, 200)::segment)"
    by blast
  with h show ?thesis by blast
qed

subsection \<open>When there is no result\<close>

text \<open>
  C4, as stated, fails: an on-source segment of length zero that lies in an analyzable
  segment, before and after the contraction, makes the floor division of line 117 raise
  \<open>ZeroDivisionError\<close>: the function neither returns \<open>None\<close> nor a segment. It fails a
  second time where the padding is more than half the analyzable segment: for \<open>[0,300)\<close>
  and a padding of \<open>200\<close> nothing of the segment is left after the contraction, the crossed
  bounds \<open>(200, 100)\<close> do not contain the on-source segment \<open>[100,200)\<close>, and still the
  function returns a segment, \<open>[-100,400)\<close>, because the constructor exchanges the bounds.
\<close>

theorem no_result_zero_length_counterexample:
  "seg_contains (0, 10) (5, 5) \<and> seglist_find [(0, 10)] (5, 5) = Inr 0
   \<and> seg_contains (contract (0, 10) 0) (5, 5)
   \<and> compute_offsource_segment [(0, 10)] (5, 5) 0 None None True = Inl ZeroDivisionError
   \<and> seglist_find [(0, 300)] (100, 200) = Inr 0
   \<and> \<not> seg_contains (0 + 200, 300 - 200) (100, 200)
   \<and> compute_offsource_segment [(0, 300)] (100, 200) 200 None None True
       = Inr (Some (- 100, 400))"
  by (simp add: offsource_defs)

text \<open>
  C4, amended. Let the on-source segment \<open>S\<close> have non-zero length and \<open>padding_time\<close> be
  at most half the length of the first analyzable segment \<open>[a, b)\<close> that contains \<open>S\<close>, if
  there is one. Then the function raises nothing, and it returns \<open>None\<close> exactly when no
  analyzable segment contains \<open>S\<close>, or \<open>[a + padding_time, b - padding_time)\<close> does not
  contain \<open>S\<close>, or \<open>min_trials\<close> is given and the final total trial count is below it; in
  every other case it returns a segment. Nothing is said about a padding of more than half
  the analyzable segment.
\<close>

theorem no_result_iff:
  assumes q: "seg_abs S \<noteq> 0"
    and fit: "\<forall>i. seglist_find A S = Inr i \<longrightarrow> 2 * p \<le> seg_abs (A ! i)"
  shows "(compute_offsource_segment A S p mn mx sy = Inr None) =
           ((\<forall>s\<in>set A. \<not> seg_contains s S)
            \<or> (\<exists>i. seglist_find A S = Inr i
                   \<and> \<not> seg_contains (fst (A ! i) + p, snd (A ! i) - p) S)
            \<or> (\<exists>i k. seglist_find A S = Inr i \<and> mn = Some k
                   \<and> (let n = final_trials (fst (A ! i) + p, snd (A ! i) - p) S mx sy
                       in fst n + snd n < k)))
         \<and> (compute_offsource_segment A S p mn mx sy \<noteq> Inr None \<longrightarrow>
              (\<exists>r. compute_offsource_segment A S p mn mx sy = Inr (Some r)))"
proof (cases "seglist_find A S")
  case (Inl e)
  then have "\<forall>s\<in>set A. \<not> seg_contains s S" by (simp add: seglist_find_Inl)
  with Inl show ?thesis by (simp add: compute_offsource_segment_def)
next
  case (Inr i)
  from seglist_find_Inr[OF Inr] have "\<not> (\<forall>s\<in>set A. \<not> seg_contains s S)"
    using nth_mem by blast
  moreover from fit Inr have "contract (A ! i) p = (fst (A ! i) + p, snd (A ! i) - p)"
    by (simp add: contract_fit)
  ultimately show ?thesis using Inr q
    by (auto simp: compute_offsource_segment_def Let_def split: option.splits)
qed

theorem no_result_iff_witness:
  "seg_abs (100, 200) \<noteq> 0
   \<and> seglist_find [(0, 1000)] (100, 200) = Inr 0 \<and> 2 * 0 \<le> seg_abs ([(0, 1000)] ! 0)
   \<and> compute_offsource_segment [(0, 1000)] (100, 200) 0 (Some 3) None True = Inr None
   \<and> final_trials (0 + 0, 1000 - 0) (100, 200) None True = (1, 1)
   \<and> (\<exists>r. compute_offsource_segment [(0, 1000)] (100, 200) 0 (Some 2) None True = Inr (Some r))"
proof -
  have q: "seg_abs (100, 200) \<noteq> 0" by (simp add: seg_abs_def)
  have f: "seglist_find [(0, 1000)] (100, 200) = Inr 0" by (simp add: seg_contains_def)
  have g: "2 * 0 \<le> seg_abs ([(0, 1000)] ! 0)" by (simp add: seg_abs_def)
  have fit: "\<forall>i. seglist_find [(0, 1000)] (100, 200) = Inr i
               \<longrightarrow> 2 * 0 \<le> seg_abs ([(0, 1000)] ! i)"
    using f g by simp
  have t: "final_trials (0 + 0, 1000 - 0) (100, 200) None True = (1, 1)"
    by (simp add: offsource_defs)
  have "\<exists>i k. seglist_find [(0, 1000)] (100, 200) = Inr i \<and> Some (3::int) = Some k
          \<and> (let n = final_trials (fst ([(0, 1000)] ! i) + 0, snd ([(0, 1000)] ! i) - 0)
                        (100, 200) None True
              in fst n + snd n < k)"
    using f t by simp
  with no_result_iff[OF q fit, of "Some 3" None True]
  have a: "compute_offsource_segment [(0, 1000)] (100, 200) 0 (Some 3) None True = Inr None"
    by blast
  have "compute_offsource_segment [(0, 1000)] (100, 200) 0 (Some 2) None True \<noteq> Inr None"
    by (simp add: offsource_defs)
  with no_result_iff[OF q fit, of "Some 2" None True]
  have b: "\<exists>r. compute_offsource_segment [(0, 1000)] (100, 200) 0 (Some 2) None True
                 = Inr (Some r)"
    by blast
  from q a f g t b show ?thesis by blast
qed

section \<open>Properties of the veto masks\<close>

text \<open>
  C6. The claim reads the quantization as rounding the length of every allowed off-source
  gap down to a whole multiple of the quantization width. Line 76 builds
  \<open>segment(s[0], s[0] + abs(s) // quantization_time)\<close>: the new length is the number of
  whole quanta, not that number times the width. For the analyzable list \<open>[[0,1000)]\<close>,
  the on-source segment \<open>[400,500)\<close>, no vetoes and a width of \<open>150\<close>, the off-source mask
  is \<open>[[2,500), [503,1000)]\<close>: the allowed gaps \<open>[0,2)\<close> and \<open>[500,503)\<close> have the lengths
  \<open>2\<close> and \<open>3\<close>, where rounding \<open>400\<close> and \<open>500\<close> down gives \<open>300\<close> and \<open>450\<close>.
\<close>

theorem masked_segments_quantization_divergence:
  "compute_masked_segments [(0, 1000)] (400, 500) None (Some 150)
     = Inr ([(0, 400), (500, 1000)], [(2, 500), (503, 1000)])
   \<and> seglist_sub (coalesce [(0, 1000)]) [(2, 500), (503, 1000)] = [(0, 2), (500, 503)]
   \<and> seg_abs (0, 2) mod 150 \<noteq> 0 \<and> seg_abs (500, 503) mod 150 \<noteq> 0"
  by code_simp

section \<open>Properties of the trial binning\<close>

text \<open>
  C8, as stated, fails: when the on-source list has total duration zero, the modulo of
  line 226 raises \<open>ZeroDivisionError\<close>, not \<open>ValueError\<close>, although the off-source duration
  \<open>10\<close> is not a multiple of \<open>0\<close>.
\<close>

theorem trials_zero_duration_counterexample:
  "\<not> seglist_abs [] dvd seglist_abs [(0, 10)]
   \<and> get_exttrig_trials (\<lambda>f. []) [] [(0, 10)] [] = Inl ZeroDivisionError"
  by (simp add: get_exttrig_trials_def seglist_abs_def seg_abs_def)

text \<open>
  C8, amended. When the total duration of the on-source list is not zero and does not
  divide the total duration of the off-source list, \<open>get_exttrig_trials\<close> raises
  \<open>ValueError\<close>, whatever the veto files are.
\<close>

theorem trials_length_mismatch:
  assumes "seglist_abs on_segs \<noteq> 0"
    and "\<not> seglist_abs on_segs dvd seglist_abs off_segs"
  shows "get_exttrig_trials fs on_segs off_segs veto_files = Inl ValueError"
  using assms by (simp add: get_exttrig_trials_def Let_def dvd_eq_mod_eq_0)

theorem trials_length_mismatch_witness:
  "seglist_abs [(100, 200)] \<noteq> 0 \<and> \<not> seglist_abs [(100, 200)] dvd seglist_abs [(0, 250)]
   \<and> get_exttrig_trials (\<lambda>f. []) [(100, 200)] [(0, 250)] [] = Inl ValueError"
proof -
  have a: "seglist_abs [(100, 200)] \<noteq> 0" by (simp add: seglist_abs_def seg_abs_def)
  have b: "\<not> seglist_abs [(100, 200)] dvd seglist_abs [(0, 250)]"
    by (simp add: seglist_abs_def seg_abs_def)
  from trials_length_mismatch[OF a b] a b show ?thesis by blast
qed

subsection \<open>Auxiliary facts on masks\<close>

lemma length_bins_spanned: "length (bins_spanned b l) = bins_n b"
  by (simp add: bins_spanned_def)

lemma veto_loop_length:
  "length vm = bins_n b \<Longrightarrow> length (veto_loop fs b vm files) = bins_n b"
  by (induction files arbitrary: vm) (auto simp: length_bins_spanned)

lemma single_true_index:
  assumes "length (filter id xs) = 1"
  shows "\<exists>i. filter (\<lambda>i. xs ! i) [0..<length xs] = [i] \<and> i < length xs
              \<and> (\<forall>j<length xs. xs ! j = (j = i))"
proof -
  let ?idx = "filter (\<lambda>i. xs ! i) [0..<length xs]"
  have "map ((!) xs) ?idx = filter id (map ((!) xs) [0..<length xs])"
    by (simp add: filter_map comp_def)
  also have "\<dots> = filter id xs" by (simp add: map_nth)
  finally have "length ?idx = 1" using assms by (metis length_map)
  then obtain i where i: "?idx = [i]"
    by (cases ?idx) auto
  have mem: "\<And>j. j \<in> set ?idx \<longleftrightarrow> j < length xs \<and> xs ! j" by auto
  have "i < length xs \<and> xs ! i" using mem[of i] i by simp
  moreover have "\<forall>j<length xs. xs ! j = (j = i)"
    using mem i by (metis calculation list.set(1) list.simps(15) singletonD)
  ultimately show ?thesis using i by blast
qed

text \<open>
  C9, as stated, fails: the on-source list \<open>[[5,5)]\<close> has duration zero and spans no bin,
  whatever the binning of the off-source extent \<open>[0,10)\<close> is, yet the function raises
  \<open>ZeroDivisionError\<close> at the modulo of line 226, not \<open>ValueError\<close>.
\<close>

theorem trials_no_bin_counterexample:
  "get_exttrig_trials (\<lambda>f. []) [(5, 5)] [(0, 10)] [] = Inl ZeroDivisionError
   \<and> extent [(0, 10)] = Inr (0, 10)
   \<and> bins_spanned \<lparr>bins_min = 0, bins_max = 10, bins_n = 1\<rparr> [(5, 5)] = [False]
   \<and> bins_spanned \<lparr>bins_min = 0, bins_max = 10, bins_n = 2\<rparr> [(5, 5)] = [False, False]
   \<and> length (filter id (bins_spanned \<lparr>bins_min = 0, bins_max = 10, bins_n = 2\<rparr> [(5, 5)])) = 0"
  by code_simp

text \<open>
  C9, amended. On every successful return \<open>(trial_bins, trial_veto_mask, onsource_ind)\<close>:
  the veto mask has one entry per trial bin, and the number of bins is the length of the
  extent of the off-source list divided (floor) by the on-source duration; the on-source
  mask has exactly one true entry, and \<open>onsource_ind\<close> holds exactly that one bin index.
  And when the on-source list has a total duration other than zero and the binning of the
  off-source extent exists, an on-source list that spans no bin or more than one bin
  makes the function raise \<open>ValueError\<close>.
\<close>

theorem exttrig_trials_result:
  "(get_exttrig_trials fs on_segs off_segs veto_files
       = Inr (trial_bins, trial_veto_mask, onsource_ind) \<longrightarrow>
      (\<exists>ext. extent off_segs = Inr ext
         \<and> int (length trial_veto_mask) = seg_abs ext div seglist_abs on_segs
         \<and> bins_n trial_bins = length trial_veto_mask
         \<and> length (bins_spanned trial_bins on_segs) = length trial_veto_mask
         \<and> length (filter id (bins_spanned trial_bins on_segs)) = 1
         \<and> (\<exists>i. onsource_ind = [i] \<and> i < length trial_veto_mask
                \<and> (\<forall>j<length trial_veto_mask. bins_spanned trial_bins on_segs ! j = (j = i)))))
   \<and> (seglist_abs on_segs \<noteq> 0
        \<and> extent off_segs = Inr ext'
        \<and> LinearBins (fst ext') (snd ext') (seg_abs ext' div seglist_abs on_segs) = Inr b
        \<and> length (filter id (bins_spanned b on_segs)) \<noteq> 1 \<longrightarrow>
      get_exttrig_trials fs on_segs off_segs veto_files = Inl ValueError)"
proof (intro conjI impI)
  assume res: "get_exttrig_trials fs on_segs off_segs veto_files
       = Inr (trial_bins, trial_veto_mask, onsource_ind)"
  define q where "q = seglist_abs on_segs"
  from res obtain ext where ext: "extent off_segs = Inr ext"
    by (auto simp: get_exttrig_trials_def Let_def split: if_splits sum.splits)
  define n where "n = seg_abs ext div q"
  from res ext have lb: "LinearBins (fst ext) (snd ext) n = Inr trial_bins"
    and vl: "trial_veto_mask = veto_loop fs trial_bins (replicate (nat n) False) veto_files"
    and one: "length (filter id (bins_spanned trial_bins on_segs)) = 1"
    and ind: "onsource_ind = filter (\<lambda>i. bins_spanned trial_bins on_segs ! i)
                 [0..<length (bins_spanned trial_bins on_segs)]"
    by (auto simp: get_exttrig_trials_def Let_def q_def n_def split: if_splits sum.splits)
  from lb have n1: "1 \<le> n" and bn: "bins_n trial_bins = nat n"
    by (auto simp: LinearBins_def split: if_splits)
  have len: "length trial_veto_mask = bins_n trial_bins"
    unfolding vl by (rule veto_loop_length) (simp add: bn)
  have l1: "int (length trial_veto_mask) = seg_abs ext div seglist_abs on_segs"
    using len bn n1 by (simp add: n_def q_def)
  have l2: "length (bins_spanned trial_bins on_segs) = length trial_veto_mask"
    by (simp add: length_bins_spanned len)
  from single_true_index[OF one] ind l2
  have l3: "\<exists>i. onsource_ind = [i] \<and> i < length trial_veto_mask
                \<and> (\<forall>j<length trial_veto_mask. bins_spanned trial_bins on_segs ! j = (j = i))"
    by simp
  show "\<exists>ext. extent off_segs = Inr ext
         \<and> int (length trial_veto_mask) = seg_abs ext div seglist_abs on_segs
         \<and> bins_n trial_bins = length trial_veto_mask
         \<and> length (bins_spanned trial_bins on_segs) = length trial_veto_mask
         \<and> length (filter id (bins_spanned trial_bins on_segs)) = 1
         \<and> (\<exists>i. onsource_ind = [i] \<and> i < length trial_veto_mask
                \<and> (\<forall>j<length trial_veto_mask. bins_spanned trial_bins on_segs ! j = (j = i)))"
    using ext l1 len l2 one l3 by (intro exI[of _ ext] conjI) simp_all
next
  assume h: "seglist_abs on_segs \<noteq> 0
        \<and> extent off_segs = Inr ext'
        \<and> LinearBins (fst ext') (snd ext') (seg_abs ext' div seglist_abs on_segs) = Inr b
        \<and> length (filter id (bins_spanned b on_segs)) \<noteq> 1"
  show "get_exttrig_trials fs on_segs off_segs veto_files = Inl ValueError"
  proof (cases "seglist_abs off_segs mod seglist_abs on_segs = 0")
    case True
    with h show ?thesis by (simp add: get_exttrig_trials_def Let_def)
  next
    case False
    with h show ?thesis by (simp add: get_exttrig_trials_def Let_def)
  qed
qed

theorem exttrig_trials_result_witness:
  "get_exttrig_trials (\<lambda>f. [(10, 20), (250, 260)]) [(100, 200)] [(0, 300)] [''veto.txt'']
     = Inr (\<lparr>bins_min = 0, bins_max = 300, bins_n = 3\<rparr>, [True, False, True], [1])
   \<and> extent [(0, 300)] = Inr (0, 300)
   \<and> int (length [True, False, True]) = seg_abs (0, 300) div seglist_abs [(100, 200)]
   \<and> seglist_abs [(150, 250)] \<noteq> 0
   \<and> LinearBins 0 300 (seg_abs (0, 300) div seglist_abs [(150, 250)])
        = Inr \<lparr>bins_min = 0, bins_max = 300, bins_n = 3\<rparr>
   \<and> bins_spanned \<lparr>bins_min = 0, bins_max = 300, bins_n = 3\<rparr> [(150, 250)] = [False, True, True]
   \<and> get_exttrig_trials (\<lambda>f. []) [(150, 250)] [(0, 300)] [] = Inl ValueError"
proof -
  have r: "get_exttrig_trials (\<lambda>f. [(10, 20), (250, 260)]) [(100, 200)] [(0, 300)] [''veto.txt'']
     = Inr (\<lparr>bins_min = 0, bins_max = 300, bins_n = 3\<rparr>, [True, False, True], [1])"
    by code_simp
  have e: "extent [(0, 300)] = Inr (0, 300)" by code_simp
  from exttrig_trials_result[THEN conjunct1, rule_format, OF r] e
  have l: "int (length [True, False, True]) = seg_abs (0, 300) div seglist_abs [(100, 200)]"
    by auto
  have a: "seglist_abs [(150, 250)] \<noteq> 0" by code_simp
  have c: "LinearBins (fst ((0, 300)::segment)) (snd ((0, 300)::segment))
             (seg_abs (0, 300) div seglist_abs [(150, 250)])
        = Inr \<lparr>bins_min = 0, bins_max = 300, bins_n = 3\<rparr>" by code_simp
  have d: "bins_spanned \<lparr>bins_min = 0, bins_max = 300, bins_n = 3\<rparr> [(150, 250)]
             = [False, True, True]" by code_simp
  have d': "length (filter id (bins_spanned \<lparr>bins_min = 0, bins_max = 300, bins_n = 3\<rparr>
              [(150, 250)])) \<noteq> 1" by (simp add: d)
  from exttrig_trials_result[THEN conjunct2, rule_format, where on_segs = "[(150, 250)]"
      and off_segs = "[(0, 300)]" and ext' = "(0, 300)"
      and b = "\<lparr>bins_min = 0, bins_max = 300, bins_n = 3\<rparr>" and fs = "\<lambda>f. []"
      and veto_files = "[]"] a c d' e
  have v: "get_exttrig_trials (\<lambda>f. []) [(150, 250)] [(0, 300)] [] = Inl ValueError"
    by blast
  from r e l a c d v show ?thesis by simp
qed


section \<open>Properties of the multi-detector computation\<close>

subsection \<open>Auxiliary facts on dictionaries, sorting and combinations\<close>

lemma dict_set_keys: "fst ` set (dict_set k v d) = insert k (fst ` set d)"
  by (induction d) auto

lemma dict_set_entries: "set (dict_set k v d) \<subseteq> insert (k, v) (set d)"
  by (induction d) auto

lemma dict_set_distinct: "distinct (map fst d) \<Longrightarrow> distinct (map fst (dict_set k v d))"
proof (induction d)
  case Nil
  then show ?case by simp
next
  case (Cons p d)
  have "fst ` set (dict_set k v d) = insert k (fst ` set d)" by (rule dict_set_keys)
  with Cons show ?case by auto
qed

lemma seglist_find_Inr_iff: "(\<exists>i. seglist_find A S = Inr i) = (\<exists>s\<in>set A. seg_contains s S)"
proof (cases "seglist_find A S")
  case (Inl e)
  then show ?thesis using seglist_find_Inl[of A S e] by auto
next
  case (Inr i)
  then show ?thesis using seglist_find_Inr[OF Inr] nth_mem by blast
qed

lemma sieve_keys:
  "fst ` set (sieve d S new) =
     fst ` set new \<union> {x. \<exists>seglist. (x, seglist) \<in> set d \<and> (\<exists>s\<in>set seglist. seg_contains s S)}"
proof (induction d arbitrary: new)
  case Nil
  then show ?case by simp
next
  case (Cons item d)
  show ?case
  proof (cases "seglist_find (snd item) S")
    case (Inl e)
    then have no: "\<forall>s\<in>set (snd item). \<not> seg_contains s S" by (simp add: seglist_find_Inl)
    have "sieve (item # d) S new = sieve d S new" using Inl by simp
    with Cons.IH[of new] no show ?thesis
      by (auto simp del: sieve.simps)
  next
    case (Inr ind)
    then have yes: "\<exists>s\<in>set (snd item). seg_contains s S"
      using seglist_find_Inr_iff by blast
    have "sieve (item # d) S new = sieve d S (dict_set (fst item) [snd item ! ind] new)"
      using Inr by simp
    with Cons.IH[of "dict_set (fst item) [snd item ! ind] new"] yes show ?thesis
      by (auto simp del: sieve.simps simp: dict_set_keys) (metis prod.collapse)+
  qed
qed

lemma sieve_entries:
  "(x, sl) \<in> set (sieve d S new) \<Longrightarrow>
     (x, sl) \<in> set new
     \<or> (\<exists>seglist ind. (x, seglist) \<in> set d \<and> seglist_find seglist S = Inr ind
            \<and> sl = [seglist ! ind])"
proof (induction d arbitrary: new)
  case Nil
  then show ?case by simp
next
  case (Cons item d)
  show ?case
  proof (cases "seglist_find (snd item) S")
    case (Inl e)
    with Cons.prems have "(x, sl) \<in> set (sieve d S new)" by simp
    from Cons.IH[OF this] show ?thesis by auto
  next
    case (Inr ind)
    with Cons.prems have "(x, sl) \<in> set (sieve d S (dict_set (fst item) [snd item ! ind] new))"
      by simp
    from Cons.IH[OF this] dict_set_entries[of "fst item" "[snd item ! ind]" new] Inr
    show ?thesis by (cases item) auto
  qed
qed

lemma sieve_distinct: "distinct (map fst new) \<Longrightarrow> distinct (map fst (sieve d S new))"
  by (induction d arbitrary: new) (auto simp: dict_set_distinct split: sum.splits)

lemma insert_cmp_set: "insert_cmp cmp x ys = Inr zs \<Longrightarrow> set zs = insert x (set ys)"
proof (induction ys arbitrary: zs)
  case Nil
  then show ?case by auto
next
  case (Cons y ys)
  from Cons.prems obtain c where c: "cmp x y = Inr c"
    by (cases "cmp x y") auto
  show ?case
  proof (cases "c \<le> 0")
    case True
    with Cons.prems c show ?thesis by auto
  next
    case False
    with Cons.prems c obtain zs' where z: "insert_cmp cmp x ys = Inr zs'" "zs = y # zs'"
      by (cases "insert_cmp cmp x ys") auto
    from Cons.IH[OF z(1)] z(2) show ?thesis by auto
  qed
qed

lemma sort_cmp_set: "sort_cmp cmp xs = Inr ys \<Longrightarrow> set ys = set xs"
proof (induction xs arbitrary: ys)
  case Nil
  then show ?case by simp
next
  case (Cons x xs)
  from Cons.prems obtain ys' where y: "sort_cmp cmp xs = Inr ys'" "insert_cmp cmp x ys' = Inr ys"
    by (cases "sort_cmp cmp xs") auto
  from Cons.IH[OF y(1)] insert_cmp_set[OF y(2)] show ?case by simp
qed

lemma sensitivity_cmp_known:
  "sensitivity_dict x = Some a \<Longrightarrow> sensitivity_dict y = Some b \<Longrightarrow>
     sensitivity_cmp x y = Inr (py_cmp a b)"
  by (simp add: sensitivity_cmp_def)

lemma insert_cmp_known:
  "sensitivity_dict x \<noteq> None \<Longrightarrow> \<forall>y\<in>set ys. sensitivity_dict y \<noteq> None \<Longrightarrow>
     insert_cmp sensitivity_cmp x ys = Inr (insort_key rank x ys)"
  by (induction ys) (auto simp: sensitivity_cmp_def rank_def py_cmp_def)

lemma sort_cmp_known:
  "\<forall>x\<in>set xs. sensitivity_dict x \<noteq> None \<Longrightarrow>
     sort_cmp sensitivity_cmp xs = Inr (sort_key rank xs)"
  by (induction xs) (auto simp: insert_cmp_known)

lemma filter_length0_subseqs: "filter (\<lambda>ys. length ys = 0) (subseqs xs) = [[]]"
  by (induction xs) (auto simp: Let_def filter_map comp_def)

lemma choices_eq: "choices xs k = filter (\<lambda>ys. length ys = k) (subseqs xs)"
proof (induction xs arbitrary: k)
  case Nil
  then show ?case by (cases k) auto
next
  case (Cons x xs)
  show ?case
  proof (cases k)
    case 0
    then show ?thesis using filter_length0_subseqs[of "x # xs"] by simp
  next
    case (Suc n)
    then show ?thesis
      by (simp add: Let_def filter_map comp_def Cons.IH)
  qed
qed

lemma try_combos_none:
  "\<forall>c\<in>set cs. attempt d S kw c = Inr None \<Longrightarrow> try_combos d S kw cs = Inr (None, [])"
  by (induction cs) auto

lemma try_combos_first:
  "\<forall>c'\<in>set pre. attempt d S kw c' = Inr None \<Longrightarrow> attempt d S kw c = Inr (Some seg) \<Longrightarrow>
     try_combos d S kw (pre @ c # post) = Inr (Some seg, sort c)"
  by (induction pre) auto

lemma try_combos_Inr:
  "try_combos d S kw cs = Inr (r, combo) \<Longrightarrow>
     (r = None \<and> combo = [] \<and> (\<forall>c\<in>set cs. attempt d S kw c = Inr None))
     \<or> (\<exists>pre c post seg. cs = pre @ c # post \<and> (\<forall>c'\<in>set pre. attempt d S kw c' = Inr None)
            \<and> attempt d S kw c = Inr (Some seg) \<and> r = Some seg \<and> combo = sort c)"
proof (induction cs)
  case Nil
  then show ?case by simp
next
  case (Cons a cs)
  show ?case
  proof (cases "attempt d S kw a")
    case (Inl e)
    with Cons.prems show ?thesis by simp
  next
    case (Inr res)
    show ?thesis
    proof (cases res)
      case None
      with Inr Cons.prems have "try_combos d S kw cs = Inr (r, combo)" by simp
      from Cons.IH[OF this] show ?thesis
      proof
        assume "r = None \<and> combo = [] \<and> (\<forall>c\<in>set cs. attempt d S kw c = Inr None)"
        with Inr None show ?thesis by simp
      next
        assume "\<exists>pre c post seg. cs = pre @ c # post
                  \<and> (\<forall>c'\<in>set pre. attempt d S kw c' = Inr None)
                  \<and> attempt d S kw c = Inr (Some seg) \<and> r = Some seg \<and> combo = sort c"
        then obtain pre c post seg where h: "cs = pre @ c # post"
            "\<forall>c'\<in>set pre. attempt d S kw c' = Inr None"
            "attempt d S kw c = Inr (Some seg)" "r = Some seg" "combo = sort c"
          by blast
        have "a # cs = (a # pre) @ c # post" using h(1) by simp
        moreover have "\<forall>c'\<in>set (a # pre). attempt d S kw c' = Inr None"
          using h(2) Inr None by simp
        ultimately show ?thesis using h(3,4,5) by blast
      qed
    next
      case (Some seg)
      with Inr Cons.prems have "r = Some seg" "combo = sort a" by simp_all
      moreover have "a # cs = [] @ a # cs" by simp
      ultimately show ?thesis using Inr Some by (metis empty_iff list.set(1))
    qed
  qed
qed

lemma dict_get_in: "k \<in> fst ` set d \<Longrightarrow> \<exists>v. dict_get d k = Inr v"
  by (auto simp: dict_get_def weak_map_of_SomeI split: option.splits)

lemma intersect_keys_ok: "set keys \<subseteq> fst ` set d \<Longrightarrow> \<exists>tl. intersect_keys d acc keys = Inr tl"
proof (induction keys arbitrary: acc)
  case Nil
  then show ?case by simp
next
  case (Cons k keys)
  from Cons.prems have "k \<in> fst ` set d" by simp
  from dict_get_in[OF this] obtain v where v: "dict_get d k = Inr v" by blast
  from Cons.prems have "set keys \<subseteq> fst ` set d" by simp
  from Cons.IH[OF this, of "seglist_and acc v"] v show ?case by simp
qed

lemma dict_intersection_ok:
  assumes "set keys \<subseteq> fst ` set d"
  shows "\<exists>tl. dict_intersection d keys = Inr tl"
proof (cases "remdups keys")
  case Nil
  then show ?thesis by (simp add: dict_intersection_def)
next
  case (Cons k ks)
  have s: "set (k # ks) = set keys" using Cons by (metis set_remdups)
  with assms have "k \<in> fst ` set d" "set ks \<subseteq> fst ` set d" by auto
  from dict_get_in[OF this(1)] obtain v where v: "dict_get d k = Inr v" by blast
  from intersect_keys_ok[OF \<open>set ks \<subseteq> fst ` set d\<close>, of v] v Cons show ?thesis
    by (simp add: dict_intersection_def)
qed

lemma compute_no_raise:
  "seg_abs S \<noteq> 0 \<Longrightarrow> \<exists>r. compute_offsource_segment A S p mn mx sy = Inr r"
  by (auto simp: compute_offsource_segment_def Let_def split: sum.splits)

lemma attempt_ok:
  assumes "seg_abs S \<noteq> 0" "set c \<subseteq> fst ` set d"
  shows "\<exists>r. attempt d S kw c = Inr r"
proof -
  from dict_intersection_ok[OF assms(2)] obtain tl where "dict_intersection d c = Inr tl"
    by blast
  with compute_no_raise[OF assms(1)] show ?thesis by (simp add: attempt_def)
qed

lemma rank_inj:
  "sensitivity_dict x \<noteq> None \<Longrightarrow> sensitivity_dict y \<noteq> None \<Longrightarrow> rank x = rank y \<Longrightarrow> x = y"
  by (auto simp: sensitivity_dict_def rank_def split: if_splits)

lemma choices_mem: "c \<in> set (choices xs k) \<longleftrightarrow> subseq c xs \<and> length c = k"
  by (auto simp: choices_eq)

lemma test_combos_mem: "c \<in> set (test_combos ifos) \<longleftrightarrow> subseq c ifos \<and> 2 \<le> length c"
proof
  assume "c \<in> set (test_combos ifos)"
  then show "subseq c ifos \<and> 2 \<le> length c"
    by (auto simp: test_combos_def choices_mem)
next
  assume h: "subseq c ifos \<and> 2 \<le> length c"
  then have "length c \<le> length ifos" using list_emb_length by blast
  with h have "length c \<in> set (rev [2..<Suc (length ifos)])" by auto
  moreover have "c \<in> set (choices ifos (length c))" using h by (simp add: choices_mem)
  ultimately have "\<exists>k\<in>set (rev [2..<Suc (length ifos)]). c \<in> set (choices ifos k)"
    by blast
  then show "c \<in> set (test_combos ifos)"
    unfolding test_combos_def set_concat set_map by blast
qed

lemma test_combos_eq:
  "test_combos ifos =
     concat (map (\<lambda>k. filter (\<lambda>c. length c = k) (subseqs ifos)) (rev [2..<Suc (length ifos)]))"
proof -
  have "choices ifos = (\<lambda>k. filter (\<lambda>c. length c = k) (subseqs ifos))"
    by (rule ext) (rule choices_eq)
  then show ?thesis unfolding test_combos_def by (simp only:)
qed

lemma choices_subset: "c \<in> set (choices xs k) \<Longrightarrow> set c \<subseteq> set xs"
  by (induction xs k arbitrary: c rule: choices.induct) fastforce+

lemma choices_length: "c \<in> set (choices xs k) \<Longrightarrow> length c = k"
  by (induction xs k arbitrary: c rule: choices.induct) auto

lemma lex_cons_map:
  fixes L :: "int list list"
  shows "sorted_wrt (<) L \<Longrightarrow> sorted_wrt (<) (map ((#) a) L)"
  by (induction L) auto

lemma choices_lex_sorted:
  fixes f :: "'a \<Rightarrow> int"
  shows "sorted_wrt (<) (map f xs) \<Longrightarrow> sorted_wrt (<) (map (map f) (choices xs k))"
proof (induction xs arbitrary: k)
  case Nil
  then show ?case by (cases k) auto
next
  case (Cons x xs)
  from Cons.prems have tl: "sorted_wrt (<) (map f xs)" and hd: "\<forall>y\<in>set xs. f x < f y"
    by auto
  show ?case
  proof (cases k)
    case 0
    then show ?thesis by simp
  next
    case (Suc n)
    have "map (map f) (map ((#) x) (choices xs n)) = map ((#) (f x)) (map (map f) (choices xs n))"
      by simp
    then have a: "sorted_wrt (<) (map (map f) (map ((#) x) (choices xs n)))"
      using lex_cons_map[OF Cons.IH[OF tl, of n], of "f x"] by (simp only:)
    have b: "sorted_wrt (<) (map (map f) (choices xs (Suc n)))"
      using Cons.IH[OF tl, of "Suc n"] .
    have c: "map f (x # u) < map f v"
      if "u \<in> set (choices xs n)" "v \<in> set (choices xs (Suc n))" for u v
    proof -
      from choices_length[OF that(2)] obtain y v' where v: "v = y # v'" by (cases v) auto
      from choices_subset[OF that(2)] v have "y \<in> set xs" by simp
      with hd have "f x < f y" by blast
      with v show ?thesis by simp
    qed
    have d: "\<forall>u'\<in>set (map (map f) (map ((#) x) (choices xs n))).
               \<forall>v'\<in>set (map (map f) (choices xs (Suc n))). u' < v'"
    proof (intro ballI)
      fix u' v'
      assume "u' \<in> set (map (map f) (map ((#) x) (choices xs n)))"
        and "v' \<in> set (map (map f) (choices xs (Suc n)))"
      then obtain u v where "u \<in> set (choices xs n)" "u' = map f (x # u)"
        "v \<in> set (choices xs (Suc n))" "v' = map f v"
        by auto
      with c show "u' < v'" by blast
    qed
    have "choices (x # xs) k = map ((#) x) (choices xs n) @ choices xs (Suc n)"
      by (simp add: Suc)
    then have "map (map f) (choices (x # xs) k)
                 = map (map f) (map ((#) x) (choices xs n)) @ map (map f) (choices xs (Suc n))"
      by (simp only: map_append)
    then show ?thesis
      using a b d by (simp only: sorted_wrt_append)
  qed
qed

lemma multi_ifo_unfold:
  "sort_cmp sensitivity_cmp (map fst (sieve d S [])) = Inr ifos \<Longrightarrow>
     multi_ifo_compute_offsource_segment d S kw
       = try_combos (sieve d S []) S kw (test_combos ifos)"
  by (simp add: multi_ifo_compute_offsource_segment_def)

lemma sieve_keys_empty:
  "fst ` set (sieve d S []) =
     {x. \<exists>seglist. (x, seglist) \<in> set d \<and> (\<exists>s\<in>set seglist. seg_contains s S)}"
  using sieve_keys[of d S "[]"] by simp

lemma test_combos_subset: "c \<in> set (test_combos ifos) \<Longrightarrow> set c \<subseteq> set ifos"
  unfolding test_combos_def using choices_subset by fastforce

lemma seglist_and_single:
  "seglist_and [a] [b] =
     (if max (fst a) (fst b) < min (snd a) (snd b)
      then [(max (fst a) (fst b), min (snd a) (snd b))] else [])"
  by (simp add: seglist_and_def)

lemma intersect_keys_single:
  assumes "\<forall>k\<in>set keys. \<exists>s. dict_get d k = Inr [s] \<and> seg_contains s S"
    and "seg_contains acc S" and "fst S < snd S"
  shows "\<exists>t. intersect_keys d [acc] keys = Inr [t] \<and> seg_contains t S \<and> seg_contains acc t
            \<and> (\<forall>k\<in>set keys. \<exists>s. dict_get d k = Inr [s] \<and> seg_contains s t)
            \<and> (fst t = fst acc \<or> (\<exists>k\<in>set keys. \<exists>s. dict_get d k = Inr [s] \<and> fst s = fst t))
            \<and> (snd t = snd acc \<or> (\<exists>k\<in>set keys. \<exists>s. dict_get d k = Inr [s] \<and> snd s = snd t))"
  using assms
proof (induction keys arbitrary: acc)
  case Nil
  then show ?case by (simp add: seg_contains_def)
next
  case (Cons k keys)
  from Cons.prems(1) obtain s where s: "dict_get d k = Inr [s]" "seg_contains s S" by (auto simp del: split_paired_Ex split_paired_All)
  define u where "u = (max (fst acc) (fst s), min (snd acc) (snd s))"
  have lt: "max (fst acc) (fst s) < min (snd acc) (snd s)"
    using s(2) Cons.prems(2,3) by (auto simp: seg_contains_def)
  have step: "intersect_keys d [acc] (k # keys) = intersect_keys d [u] keys"
    using s(1) lt by (simp add: seglist_and_single u_def)
  have uS: "seg_contains u S" using s(2) Cons.prems(2) by (auto simp: seg_contains_def u_def)
  have rest: "\<forall>k\<in>set keys. \<exists>s. dict_get d k = Inr [s] \<and> seg_contains s S"
    using Cons.prems(1) by simp
  from Cons.IH[OF rest uS Cons.prems(3)] obtain t where t:
    "intersect_keys d [u] keys = Inr [t]" "seg_contains t S" "seg_contains u t"
    "\<forall>k\<in>set keys. \<exists>s. dict_get d k = Inr [s] \<and> seg_contains s t"
    "fst t = fst u \<or> (\<exists>k\<in>set keys. \<exists>s. dict_get d k = Inr [s] \<and> fst s = fst t)"
    "snd t = snd u \<or> (\<exists>k\<in>set keys. \<exists>s. dict_get d k = Inr [s] \<and> snd s = snd t)"
    by blast
  have acct: "seg_contains acc t" and st: "seg_contains s t"
    using t(3) by (auto simp: seg_contains_def u_def)
  have all: "\<forall>k'\<in>set (k # keys). \<exists>s. dict_get d k' = Inr [s] \<and> seg_contains s t"
    using t(4) s(1) st by (metis set_ConsD)
  have lo: "fst t = fst acc \<or> (\<exists>k'\<in>set (k # keys). \<exists>s. dict_get d k' = Inr [s] \<and> fst s = fst t)"
  proof (cases "fst t = fst u")
    case True
    then have "fst t = fst acc \<or> fst t = fst s" by (auto simp: u_def max_def simp del: split_paired_Ex split_paired_All)
    with s(1) show ?thesis by (auto simp del: split_paired_Ex split_paired_All)
  next
    case False
    with t(5) show ?thesis by (auto simp del: split_paired_Ex split_paired_All)
  qed
  have hi: "snd t = snd acc \<or> (\<exists>k'\<in>set (k # keys). \<exists>s. dict_get d k' = Inr [s] \<and> snd s = snd t)"
  proof (cases "snd t = snd u")
    case True
    then have "snd t = snd acc \<or> snd t = snd s" by (auto simp: u_def min_def simp del: split_paired_Ex split_paired_All)
    with s(1) show ?thesis by (auto simp del: split_paired_Ex split_paired_All)
  next
    case False
    with t(6) show ?thesis by (auto simp del: split_paired_Ex split_paired_All)
  qed
  from step t(1,2) acct all lo hi show ?case by (intro exI[of _ t] conjI) simp_all
qed

lemma sieve_get:
  assumes "dict_get (sieve d S []) x = Inr sl"
  shows "\<exists>seglist ind. (x, seglist) \<in> set d \<and> seglist_find seglist S = Inr ind
           \<and> sl = [seglist ! ind] \<and> seg_contains (seglist ! ind) S"
proof -
  from assms have "map_of (sieve d S []) x = Some sl"
    by (auto simp: dict_get_def split: option.splits)
  then have "(x, sl) \<in> set (sieve d S [])" by (rule map_of_SomeD)
  from sieve_entries[OF this] obtain seglist ind where
    h: "(x, seglist) \<in> set d" "seglist_find seglist S = Inr ind" "sl = [seglist ! ind]"
    by (auto simp del: split_paired_Ex split_paired_All)
  from seglist_find_Inr[OF h(2)] h show ?thesis by blast
qed

lemma sieve_intersection:
  assumes sub: "set c \<subseteq> fst ` set (sieve d S [])" and ne: "c \<noteq> []" and pos: "fst S < snd S"
  shows "\<exists>t. dict_intersection (sieve d S []) c = Inr [t] \<and> seg_contains t S
            \<and> (\<forall>k\<in>set c. \<exists>s. dict_get (sieve d S []) k = Inr [s] \<and> seg_contains s t)
            \<and> (\<exists>k\<in>set c. \<exists>s. dict_get (sieve d S []) k = Inr [s] \<and> fst s = fst t)
            \<and> (\<exists>k\<in>set c. \<exists>s. dict_get (sieve d S []) k = Inr [s] \<and> snd s = snd t)"
proof -
  let ?new = "sieve d S []"
  have each: "\<forall>k\<in>set c. \<exists>s. dict_get ?new k = Inr [s] \<and> seg_contains s S"
  proof
    fix k assume "k \<in> set c"
    with sub have "k \<in> fst ` set ?new" by blast
    from dict_get_in[OF this] obtain sl where sl: "dict_get ?new k = Inr sl" by blast
    from sieve_get[OF sl] sl show "\<exists>s. dict_get ?new k = Inr [s] \<and> seg_contains s S" by metis
  qed
  from ne obtain k ks where kk: "remdups c = k # ks"
    by (cases "remdups c") auto
  have sc: "set c = set (k # ks)" using kk by (metis set_remdups)
  from each sc obtain s where s: "dict_get ?new k = Inr [s]" "seg_contains s S" by (auto simp del: split_paired_Ex split_paired_All)
  have rest: "\<forall>k\<in>set ks. \<exists>s. dict_get ?new k = Inr [s] \<and> seg_contains s S"
    using each sc by (auto simp del: split_paired_Ex split_paired_All)
  from intersect_keys_single[OF rest s(2) pos] obtain t where t:
    "intersect_keys ?new [s] ks = Inr [t]" "seg_contains t S" "seg_contains s t"
    "\<forall>k\<in>set ks. \<exists>s. dict_get ?new k = Inr [s] \<and> seg_contains s t"
    "fst t = fst s \<or> (\<exists>k\<in>set ks. \<exists>s. dict_get ?new k = Inr [s] \<and> fst s = fst t)"
    "snd t = snd s \<or> (\<exists>k\<in>set ks. \<exists>s. dict_get ?new k = Inr [s] \<and> snd s = snd t)"
    by blast
  have a: "dict_intersection ?new c = Inr [t]"
    using kk s(1) t(1) by (simp add: dict_intersection_def)
  have b: "\<forall>k\<in>set c. \<exists>s. dict_get ?new k = Inr [s] \<and> seg_contains s t"
    unfolding sc using t(3,4) s(1) by (auto simp del: split_paired_Ex split_paired_All)
  have c1: "\<exists>k\<in>set c. \<exists>s. dict_get ?new k = Inr [s] \<and> fst s = fst t"
    unfolding sc using t(5) s(1) by (auto simp del: split_paired_Ex split_paired_All)
  have c2: "\<exists>k\<in>set c. \<exists>s. dict_get ?new k = Inr [s] \<and> snd s = snd t"
    unfolding sc using t(6) s(1) by (auto simp del: split_paired_Ex split_paired_All)
  from a t(2) b c1 c2 show ?thesis by blast
qed

subsection \<open>Dropped detectors\<close>

text \<open>
  C10. The function sieves the input dictionary, sorts the keys of the sieved dictionary
  and runs the loop of the attempts on the sieved dictionary over the combinations of
  those sorted keys; when the sort raises, no combination is tried. A detector \<open>x\<close> whose
  input segment list has no segment containing the on-source segment is dropped by the
  first loop without any error: it is no key of the sieved dictionary, it is not among the
  sorted detectors, and it is in no combination that is tried. Whenever the function
  returns, either every combination of the sorted keys was tried and returned \<open>None\<close>, or
  the returned combination is the first of them whose attempt returned a segment. And
  every detector of a returned combination has, in the input dictionary, a segment list
  with a segment that contains the on-source segment.
\<close>

theorem dropped_detectors_never_tried:
  "multi_ifo_compute_offsource_segment d S kw =
     (case sort_cmp sensitivity_cmp (map fst (sieve d S [])) of
        Inl e \<Rightarrow> Inl e
      | Inr ifos \<Rightarrow> try_combos (sieve d S []) S kw (test_combos ifos))
   \<and> (\<not> (\<exists>seglist. (x, seglist) \<in> set d \<and> (\<exists>s\<in>set seglist. seg_contains s S)) \<longrightarrow>
       x \<notin> fst ` set (sieve d S [])
       \<and> (\<forall>ifos. sort_cmp sensitivity_cmp (map fst (sieve d S [])) = Inr ifos \<longrightarrow>
              x \<notin> set ifos \<and> (\<forall>c\<in>set (test_combos ifos). x \<notin> set c)))
   \<and> (multi_ifo_compute_offsource_segment d S kw = Inr (r, combo) \<longrightarrow>
        (\<exists>ifos. sort_cmp sensitivity_cmp (map fst (sieve d S [])) = Inr ifos
           \<and> ((r = None \<and> combo = []
                \<and> (\<forall>c\<in>set (test_combos ifos). attempt (sieve d S []) S kw c = Inr None))
               \<or> (\<exists>pre c post seg. test_combos ifos = pre @ c # post
                     \<and> (\<forall>c'\<in>set pre. attempt (sieve d S []) S kw c' = Inr None)
                     \<and> attempt (sieve d S []) S kw c = Inr (Some seg)
                     \<and> r = Some seg \<and> combo = sort c))))
   \<and> (multi_ifo_compute_offsource_segment d S kw = Inr (r, combo) \<longrightarrow>
        (\<forall>y\<in>set combo. \<exists>seglist. (y, seglist) \<in> set d \<and> (\<exists>s\<in>set seglist. seg_contains s S)))"
proof (intro conjI impI allI)
  show "multi_ifo_compute_offsource_segment d S kw =
     (case sort_cmp sensitivity_cmp (map fst (sieve d S [])) of
        Inl e \<Rightarrow> Inl e
      | Inr ifos \<Rightarrow> try_combos (sieve d S []) S kw (test_combos ifos))"
    by (simp add: multi_ifo_compute_offsource_segment_def Let_def)
next
  assume res: "multi_ifo_compute_offsource_segment d S kw = Inr (r, combo)"
  then obtain ifos where srt: "sort_cmp sensitivity_cmp (map fst (sieve d S [])) = Inr ifos"
    by (cases "sort_cmp sensitivity_cmp (map fst (sieve d S []))")
      (auto simp: multi_ifo_compute_offsource_segment_def)
  from res multi_ifo_unfold[OF srt]
  have tc: "try_combos (sieve d S []) S kw (test_combos ifos) = Inr (r, combo)" by simp
  from try_combos_Inr[OF tc] srt
  show "\<exists>ifos. sort_cmp sensitivity_cmp (map fst (sieve d S [])) = Inr ifos
           \<and> ((r = None \<and> combo = []
                \<and> (\<forall>c\<in>set (test_combos ifos). attempt (sieve d S []) S kw c = Inr None))
               \<or> (\<exists>pre c post seg. test_combos ifos = pre @ c # post
                     \<and> (\<forall>c'\<in>set pre. attempt (sieve d S []) S kw c' = Inr None)
                     \<and> attempt (sieve d S []) S kw c = Inr (Some seg)
                     \<and> r = Some seg \<and> combo = sort c))"
    by blast
next
  assume no: "\<not> (\<exists>seglist. (x, seglist) \<in> set d \<and> (\<exists>s\<in>set seglist. seg_contains s S))"
  then show a: "x \<notin> fst ` set (sieve d S [])"
    unfolding sieve_keys_empty by blast
  fix ifos
  assume srt: "sort_cmp sensitivity_cmp (map fst (sieve d S [])) = Inr ifos"
  from sort_cmp_set[OF srt] a show b: "x \<notin> set ifos" by simp
  show "\<forall>c\<in>set (test_combos ifos). x \<notin> set c"
    using b test_combos_subset by blast
next
  assume res: "multi_ifo_compute_offsource_segment d S kw = Inr (r, combo)"
  then obtain ifos where srt: "sort_cmp sensitivity_cmp (map fst (sieve d S [])) = Inr ifos"
    by (cases "sort_cmp sensitivity_cmp (map fst (sieve d S []))")
      (auto simp: multi_ifo_compute_offsource_segment_def)
  from res multi_ifo_unfold[OF srt]
  have tc: "try_combos (sieve d S []) S kw (test_combos ifos) = Inr (r, combo)" by simp
  have keys: "set ifos = fst ` set (sieve d S [])" using sort_cmp_set[OF srt] by simp
  from try_combos_Inr[OF tc] have "set combo \<subseteq> set ifos"
  proof
    assume "r = None \<and> combo = [] \<and> (\<forall>c\<in>set (test_combos ifos). attempt (sieve d S []) S kw c = Inr None)"
    then show ?thesis by simp
  next
    assume "\<exists>pre c post seg. test_combos ifos = pre @ c # post
              \<and> (\<forall>c'\<in>set pre. attempt (sieve d S []) S kw c' = Inr None)
              \<and> attempt (sieve d S []) S kw c = Inr (Some seg) \<and> r = Some seg \<and> combo = sort c"
    then obtain pre c post where "test_combos ifos = pre @ c # post" "combo = sort c" by blast
    then have "c \<in> set (test_combos ifos)" "set combo = set c" by simp_all
    with test_combos_subset show ?thesis by blast
  qed
  with keys have "set combo \<subseteq> {x. \<exists>seglist. (x, seglist) \<in> set d \<and> (\<exists>s\<in>set seglist. seg_contains s S)}"
    unfolding sieve_keys_empty by simp
  then show "\<forall>y\<in>set combo. \<exists>seglist. (y, seglist) \<in> set d \<and> (\<exists>s\<in>set seglist. seg_contains s S)"
    by blast
qed

theorem dropped_detectors_never_tried_witness:
  "\<not> (\<exists>seglist. (''G1'', seglist) \<in> set [(''G1'', [(0, 90)]), (''L1'', [(0, 1000)]), (''H1'', [(90, 210)])]
          \<and> (\<exists>s\<in>set seglist. seg_contains s (100, 200)))
   \<and> ''G1'' \<notin> fst ` set (sieve [(''G1'', [(0, 90)]), (''L1'', [(0, 1000)]), (''H1'', [(90, 210)])]
                          (100, 200) [])
   \<and> multi_ifo_compute_offsource_segment
        [(''G1'', [(0, 90)]), (''L1'', [(0, 1000)]), (''H1'', [(90, 210)])] (100, 200)
        \<lparr>kw_padding_time = 0, kw_min_trials = None, kw_max_trials = None, kw_symmetric = True\<rparr>
       = Inr (Some (100, 200), [''H1'', ''L1''])
   \<and> (\<exists>seglist.
         (''H1'', seglist) \<in> set [(''G1'', [(0, 90)]), (''L1'', [(0, 1000)]), (''H1'', [(90, 210)])]
         \<and> (\<exists>s\<in>set seglist. seg_contains s (100, 200)))
   \<and> (\<exists>seglist.
         (''L1'', seglist) \<in> set [(''G1'', [(0, 90)]), (''L1'', [(0, 1000)]), (''H1'', [(90, 210)])]
         \<and> (\<exists>s\<in>set seglist. seg_contains s (100, 200)))"
proof -
  let ?d = "[(''G1'', [(0, 90)]), (''L1'', [(0, 1000)]), (''H1'', [(90, 210)])]"
  let ?S = "(100, 200)::segment"
  let ?kw = "\<lparr>kw_padding_time = 0, kw_min_trials = None, kw_max_trials = None,
               kw_symmetric = True\<rparr>"
  have no: "\<not> (\<exists>seglist. (''G1'', seglist) \<in> set ?d \<and> (\<exists>s\<in>set seglist. seg_contains s ?S))"
    by (simp add: seg_contains_def)
  have res: "multi_ifo_compute_offsource_segment ?d ?S ?kw = Inr (Some (100, 200), [''H1'', ''L1''])"
    by code_simp
  note inst = dropped_detectors_never_tried[where x = "''G1''" and d = ?d and S = ?S
      and kw = ?kw and r = "Some (100, 200)" and combo = "[''H1'', ''L1'']"]
  from inst[THEN conjunct2, THEN conjunct1] no
  have a: "''G1'' \<notin> fst ` set (sieve ?d ?S [])"
    by blast
  from inst[THEN conjunct2, THEN conjunct2, THEN conjunct2] res
  have b: "\<forall>y\<in>set [''H1'', ''L1'']. \<exists>seglist. (y, seglist) \<in> set ?d
              \<and> (\<exists>s\<in>set seglist. seg_contains s ?S)"
    by blast
  from b have b1: "\<exists>seglist. (''H1'', seglist) \<in> set ?d \<and> (\<exists>s\<in>set seglist. seg_contains s ?S)"
    and b2: "\<exists>seglist. (''L1'', seglist) \<in> set ?d \<and> (\<exists>s\<in>set seglist. seg_contains s ?S)"
    by simp_all
  from no a res b1 b2 show ?thesis by blast
qed

subsection \<open>Order of the attempts and first success\<close>

text \<open>
  C5, as stated, fails on two kinds of input. A detector that the sensitivity table does
  not list (here \<open>K1\<close>) makes the sort of line 158 raise \<open>KeyError\<close> as soon as two
  detectors are analyzable, although the attempt for the pair would succeed. And for the
  on-source segment \<open>[5,5)\<close> of length zero inside \<open>[0,10)\<close> for both detectors, the one
  attempt raises \<open>ZeroDivisionError\<close>: no subset succeeds, and \<open>(None, [])\<close> is not
  returned.
\<close>

theorem multi_ifo_raises_counterexample:
  "multi_ifo_compute_offsource_segment [(''K1'', [(0, 1000)]), (''H1'', [(0, 1000)])] (100, 200)
      \<lparr>kw_padding_time = 0, kw_min_trials = None, kw_max_trials = None, kw_symmetric = True\<rparr>
     = Inl KeyError
   \<and> attempt (sieve [(''K1'', [(0, 1000)]), (''H1'', [(0, 1000)])] (100, 200) []) (100, 200)
      \<lparr>kw_padding_time = 0, kw_min_trials = None, kw_max_trials = None, kw_symmetric = True\<rparr>
      [''K1'', ''H1'']
     = Inr (Some (0, 300))
   \<and> multi_ifo_compute_offsource_segment [(''H1'', [(0, 10)]), (''L1'', [(0, 10)])] (5, 5)
      \<lparr>kw_padding_time = 0, kw_min_trials = None, kw_max_trials = None, kw_symmetric = True\<rparr>
     = Inl ZeroDivisionError"
  by code_simp


text \<open>
  C5, amended. Let every detector whose list has a segment containing the on-source
  segment \<open>S\<close> be listed in the sensitivity table, and let \<open>S\<close> have positive length. Then
  the sort raises nothing and yields the detectors \<open>ifos\<close> with such a segment, in strictly
  increasing rank. The combinations tried are, for the sizes \<open>length ifos\<close> down to \<open>2\<close>,
  the subsequences of \<open>ifos\<close> of that size, within a size in lexicographic order of the
  ranks; every subsequence of at least two detectors is tried and no other. The sieved
  dictionary holds for each detector the one segment found in its list. The trial list of
  a combination is the single segment \<open>t\<close> that is the intersection of the members'
  segments: it lies in each of them, its lower bound is the lower bound of one of them and
  its upper bound the upper bound of one of them. The attempt for the combination is
  \<open>compute_offsource_segment\<close> on the list \<open>[t]\<close> with the on-source segment and the
  keyword arguments of the call, and no attempt raises. If every attempt returns \<open>None\<close>
  the function returns \<open>(None, [])\<close>; otherwise it returns the segment of the first attempt
  that does not return \<open>None\<close>, with that combination sorted as strings.
\<close>

theorem multi_ifo_first_success:
  assumes known: "\<forall>x seglist. (x, seglist) \<in> set d \<and> (\<exists>s\<in>set seglist. seg_contains s S)
                     \<longrightarrow> sensitivity_dict x \<noteq> None"
    and pos: "fst S < snd S"
  shows "\<exists>ifos.
      sort_cmp sensitivity_cmp (map fst (sieve d S [])) = Inr ifos
    \<and> set ifos = {x. \<exists>seglist. (x, seglist) \<in> set d \<and> (\<exists>s\<in>set seglist. seg_contains s S)}
    \<and> sorted_wrt (\<lambda>a b. rank a < rank b) ifos
    \<and> test_combos ifos =
        concat (map (\<lambda>k. filter (\<lambda>c. length c = k) (subseqs ifos)) (rev [2..<Suc (length ifos)]))
    \<and> (\<forall>k. sorted_wrt (<) (map (map rank) (choices ifos k)))
    \<and> (\<forall>c. c \<in> set (test_combos ifos) \<longleftrightarrow> subseq c ifos \<and> 2 \<le> length c)
    \<and> (\<forall>x sl. (x, sl) \<in> set (sieve d S []) \<longrightarrow>
          (\<exists>seglist ind. (x, seglist) \<in> set d \<and> seglist_find seglist S = Inr ind
              \<and> sl = [seglist ! ind]))
    \<and> (\<forall>c\<in>set (test_combos ifos). \<exists>t.
          dict_intersection (sieve d S []) c = Inr [t] \<and> seg_contains t S
          \<and> (\<forall>k\<in>set c. \<exists>s. dict_get (sieve d S []) k = Inr [s] \<and> seg_contains s t)
          \<and> (\<exists>k\<in>set c. \<exists>s. dict_get (sieve d S []) k = Inr [s] \<and> fst s = fst t)
          \<and> (\<exists>k\<in>set c. \<exists>s. dict_get (sieve d S []) k = Inr [s] \<and> snd s = snd t)
          \<and> attempt (sieve d S []) S kw c =
              compute_offsource_segment [t] S (kw_padding_time kw) (kw_min_trials kw)
                (kw_max_trials kw) (kw_symmetric kw))
    \<and> (\<forall>c\<in>set (test_combos ifos). \<exists>r. attempt (sieve d S []) S kw c = Inr r)
    \<and> ((\<forall>c\<in>set (test_combos ifos). attempt (sieve d S []) S kw c = Inr None) \<longrightarrow>
          multi_ifo_compute_offsource_segment d S kw = Inr (None, []))
    \<and> (\<forall>pre c post seg. test_combos ifos = pre @ c # post
          \<and> (\<forall>c'\<in>set pre. attempt (sieve d S []) S kw c' = Inr None)
          \<and> attempt (sieve d S []) S kw c = Inr (Some seg) \<longrightarrow>
          multi_ifo_compute_offsource_segment d S kw = Inr (Some seg, sort c))"
proof -
  let ?new = "sieve d S []"
  let ?keys = "map fst ?new"
  define ifos where "ifos = sort_key rank ?keys"
  have kn: "\<forall>x\<in>set ?keys. sensitivity_dict x \<noteq> None"
    using known sieve_keys_empty[of d S] by auto
  have srt: "sort_cmp sensitivity_cmp ?keys = Inr ifos"
    unfolding ifos_def by (rule sort_cmp_known[OF kn])
  have set_ifos: "set ifos = fst ` set ?new" by (simp add: ifos_def)
  have p2: "set ifos = {x. \<exists>seglist. (x, seglist) \<in> set d \<and> (\<exists>s\<in>set seglist. seg_contains s S)}"
    using set_ifos sieve_keys_empty[of d S] by simp
  have dk: "distinct ?keys" using sieve_distinct[of "[]" d S] by simp
  have di: "distinct ifos" using dk by (simp add: ifos_def)
  have "inj_on rank (set ifos)"
  proof (rule inj_onI)
    fix a b assume ab: "a \<in> set ifos" "b \<in> set ifos" "rank a = rank b"
    from ab(1,2) set_ifos have "a \<in> set ?keys" "b \<in> set ?keys" by simp_all
    with kn have "sensitivity_dict a \<noteq> None" "sensitivity_dict b \<noteq> None" by blast+
    then show "a = b" using ab(3) by (rule rank_inj)
  qed
  with di have "distinct (map rank ifos)" by (simp add: distinct_map)
  moreover have "sorted (map rank ifos)" by (simp add: ifos_def)
  ultimately have st: "sorted_wrt (<) (map rank ifos)"
    by (simp add: strict_sorted_iff)
  then have p3: "sorted_wrt (\<lambda>a b. rank a < rank b) ifos" by (simp add: sorted_wrt_map)
  have p4: "test_combos ifos =
        concat (map (\<lambda>k. filter (\<lambda>c. length c = k) (subseqs ifos)) (rev [2..<Suc (length ifos)]))"
    by (rule test_combos_eq)
  have p5: "\<forall>k. sorted_wrt (<) (map (map rank) (choices ifos k))"
    using choices_lex_sorted[OF st] by blast
  have p6: "\<forall>c. c \<in> set (test_combos ifos) \<longleftrightarrow> subseq c ifos \<and> 2 \<le> length c"
    using test_combos_mem by blast
  have p7: "\<forall>x sl. (x, sl) \<in> set ?new \<longrightarrow>
          (\<exists>seglist ind. (x, seglist) \<in> set d \<and> seglist_find seglist S = Inr ind
              \<and> sl = [seglist ! ind])"
    using sieve_entries[of _ _ d S "[]"] by auto
  have p7': "\<forall>c\<in>set (test_combos ifos). \<exists>t.
          dict_intersection ?new c = Inr [t] \<and> seg_contains t S
          \<and> (\<forall>k\<in>set c. \<exists>s. dict_get ?new k = Inr [s] \<and> seg_contains s t)
          \<and> (\<exists>k\<in>set c. \<exists>s. dict_get ?new k = Inr [s] \<and> fst s = fst t)
          \<and> (\<exists>k\<in>set c. \<exists>s. dict_get ?new k = Inr [s] \<and> snd s = snd t)
          \<and> attempt ?new S kw c =
              compute_offsource_segment [t] S (kw_padding_time kw) (kw_min_trials kw)
                (kw_max_trials kw) (kw_symmetric kw)"
  proof
    fix c assume c: "c \<in> set (test_combos ifos)"
    then have sub: "set c \<subseteq> fst ` set ?new" using test_combos_subset set_ifos by blast
    from c have "2 \<le> length c" by (simp add: test_combos_mem)
    then have ne: "c \<noteq> []" by auto
    from sieve_intersection[OF sub ne pos] obtain t where
      t1: "dict_intersection ?new c = Inr [t]" and t2: "seg_contains t S"
      and t3: "\<forall>k\<in>set c. \<exists>s. dict_get ?new k = Inr [s] \<and> seg_contains s t"
      and t4: "\<exists>k\<in>set c. \<exists>s. dict_get ?new k = Inr [s] \<and> fst s = fst t"
      and t5: "\<exists>k\<in>set c. \<exists>s. dict_get ?new k = Inr [s] \<and> snd s = snd t"
      by blast
    have t6: "attempt ?new S kw c =
              compute_offsource_segment [t] S (kw_padding_time kw) (kw_min_trials kw)
                (kw_max_trials kw) (kw_symmetric kw)"
      by (simp add: attempt_def t1)
    from t1 t2 t3 t4 t5 t6
    show "\<exists>t. dict_intersection ?new c = Inr [t] \<and> seg_contains t S
          \<and> (\<forall>k\<in>set c. \<exists>s. dict_get ?new k = Inr [s] \<and> seg_contains s t)
          \<and> (\<exists>k\<in>set c. \<exists>s. dict_get ?new k = Inr [s] \<and> fst s = fst t)
          \<and> (\<exists>k\<in>set c. \<exists>s. dict_get ?new k = Inr [s] \<and> snd s = snd t)
          \<and> attempt ?new S kw c =
              compute_offsource_segment [t] S (kw_padding_time kw) (kw_min_trials kw)
                (kw_max_trials kw) (kw_symmetric kw)"
      by (intro exI[of _ t] conjI) assumption+
  qed
  have q: "seg_abs S \<noteq> 0" using pos by (simp add: seg_abs_def)
  have p8: "\<forall>c\<in>set (test_combos ifos). \<exists>r. attempt ?new S kw c = Inr r"
  proof
    fix c assume "c \<in> set (test_combos ifos)"
    then have "set c \<subseteq> fst ` set ?new" using test_combos_subset set_ifos by blast
    from attempt_ok[OF q this] show "\<exists>r. attempt ?new S kw c = Inr r" .
  qed
  have un: "multi_ifo_compute_offsource_segment d S kw = try_combos ?new S kw (test_combos ifos)"
    by (rule multi_ifo_unfold[OF srt])
  have p9: "(\<forall>c\<in>set (test_combos ifos). attempt ?new S kw c = Inr None) \<longrightarrow>
          multi_ifo_compute_offsource_segment d S kw = Inr (None, [])"
    unfolding un using try_combos_none by blast
  have p10: "\<forall>pre c post seg. test_combos ifos = pre @ c # post
          \<and> (\<forall>c'\<in>set pre. attempt ?new S kw c' = Inr None)
          \<and> attempt ?new S kw c = Inr (Some seg) \<longrightarrow>
          multi_ifo_compute_offsource_segment d S kw = Inr (Some seg, sort c)"
    unfolding un using try_combos_first by (metis (no_types, lifting))
  show ?thesis
    using srt p2 p3 p4 p5 p6 p7 p7' p8 p9 p10 by (intro exI[of _ ifos] conjI) assumption+
qed

theorem multi_ifo_first_success_witness:
  "fst ((100, 200)::segment) < snd ((100, 200)::segment)
   \<and> sort_cmp sensitivity_cmp
        (map fst (sieve [(''V1'', [(0, 400)]), (''L1'', [(0, 1000)]), (''H1'', [(90, 210)])]
           (100, 200) []))
       = Inr [''H1'', ''L1'', ''V1'']
   \<and> test_combos [''H1'', ''L1'', ''V1'']
       = [[''H1'', ''L1'', ''V1''], [''H1'', ''L1''], [''H1'', ''V1'']] @ [''L1'', ''V1''] # []
   \<and> multi_ifo_compute_offsource_segment
        [(''V1'', [(0, 400)]), (''L1'', [(0, 1000)]), (''H1'', [(90, 210)])] (100, 200)
        \<lparr>kw_padding_time = 0, kw_min_trials = Some 2, kw_max_trials = None, kw_symmetric = True\<rparr>
       = Inr (Some (0, 300), [''L1'', ''V1''])
   \<and> dict_intersection
        (sieve [(''V1'', [(0, 400)]), (''L1'', [(0, 1000)]), (''H1'', [(90, 210)])] (100, 200) [])
        [''L1'', ''V1''] = Inr [(0, 400)]
   \<and> attempt
        (sieve [(''V1'', [(0, 400)]), (''L1'', [(0, 1000)]), (''H1'', [(90, 210)])] (100, 200) [])
        (100, 200)
        \<lparr>kw_padding_time = 0, kw_min_trials = Some 2, kw_max_trials = None, kw_symmetric = True\<rparr>
        [''L1'', ''V1'']
       = compute_offsource_segment [(0, 400)] (100, 200) 0 (Some 2) None True"
proof -
  let ?d = "[(''V1'', [(0, 400)]), (''L1'', [(0, 1000)]), (''H1'', [(90, 210)])]"
  let ?S = "(100, 200)::segment"
  let ?kw = "\<lparr>kw_padding_time = 0, kw_min_trials = Some 2, kw_max_trials = None,
               kw_symmetric = True\<rparr>"
  have known: "\<forall>x seglist. (x, seglist) \<in> set ?d \<and> (\<exists>s\<in>set seglist. seg_contains s ?S)
                 \<longrightarrow> sensitivity_dict x \<noteq> None"
    by (auto simp: sensitivity_dict_def)
  have pos: "fst ?S < snd ?S" by simp
  have srt: "sort_cmp sensitivity_cmp (map fst (sieve ?d ?S [])) = Inr [''H1'', ''L1'', ''V1'']"
    by code_simp
  have tc: "test_combos [''H1'', ''L1'', ''V1'']
       = [[''H1'', ''L1'', ''V1''], [''H1'', ''L1''], [''H1'', ''V1'']] @ [''L1'', ''V1''] # []"
    by code_simp
  have pre: "\<forall>c'\<in>set [[''H1'', ''L1'', ''V1''], [''H1'', ''L1''], [''H1'', ''V1'']].
               attempt (sieve ?d ?S []) ?S ?kw c' = Inr None"
    by code_simp
  have hit: "attempt (sieve ?d ?S []) ?S ?kw [''L1'', ''V1''] = Inr (Some (0, 300))"
    by code_simp
  have so: "sort [''L1'', ''V1''] = [''L1'', ''V1'']" by code_simp
  from multi_ifo_first_success[OF known pos, of ?kw] obtain ifos where
    i: "sort_cmp sensitivity_cmp (map fst (sieve ?d ?S [])) = Inr ifos"
    and f: "\<forall>pre c post seg. test_combos ifos = pre @ c # post
          \<and> (\<forall>c'\<in>set pre. attempt (sieve ?d ?S []) ?S ?kw c' = Inr None)
          \<and> attempt (sieve ?d ?S []) ?S ?kw c = Inr (Some seg) \<longrightarrow>
          multi_ifo_compute_offsource_segment ?d ?S ?kw = Inr (Some seg, sort c)"
    and g: "\<forall>c\<in>set (test_combos ifos). \<exists>t.
          dict_intersection (sieve ?d ?S []) c = Inr [t] \<and> seg_contains t ?S
          \<and> (\<forall>k\<in>set c. \<exists>s. dict_get (sieve ?d ?S []) k = Inr [s] \<and> seg_contains s t)
          \<and> (\<exists>k\<in>set c. \<exists>s. dict_get (sieve ?d ?S []) k = Inr [s] \<and> fst s = fst t)
          \<and> (\<exists>k\<in>set c. \<exists>s. dict_get (sieve ?d ?S []) k = Inr [s] \<and> snd s = snd t)
          \<and> attempt (sieve ?d ?S []) ?S ?kw c =
              compute_offsource_segment [t] ?S (kw_padding_time ?kw) (kw_min_trials ?kw)
                (kw_max_trials ?kw) (kw_symmetric ?kw)"
    by blast
  from i srt have eq: "ifos = [''H1'', ''L1'', ''V1'']" by simp
  with f tc pre hit
  have m: "multi_ifo_compute_offsource_segment ?d ?S ?kw
             = Inr (Some (0, 300), sort [''L1'', ''V1''])"
    by blast
  have di: "dict_intersection (sieve ?d ?S []) [''L1'', ''V1''] = Inr [(0, 400)]"
    by code_simp
  have "[''L1'', ''V1''] \<in> set (test_combos ifos)" unfolding eq tc by simp
  with g obtain t where t: "dict_intersection (sieve ?d ?S []) [''L1'', ''V1''] = Inr [t]"
    and a: "attempt (sieve ?d ?S []) ?S ?kw [''L1'', ''V1''] =
              compute_offsource_segment [t] ?S (kw_padding_time ?kw) (kw_min_trials ?kw)
                (kw_max_trials ?kw) (kw_symmetric ?kw)"
    by blast
  from t di have "t = (0, 400)" by simp
  with a have at: "attempt (sieve ?d ?S []) ?S ?kw [''L1'', ''V1'']
                     = compute_offsource_segment [(0, 400)] ?S 0 (Some 2) None True"
    by simp
  from m so srt tc pos di at show ?thesis by simp
qed

end
